theory Spec2Isabelle
  imports Main "HOL-Library.Sublist"
begin

section \<open>Data model (types.ts)\<close>

text \<open>
  The node record of the mind map. Optional fields of the TypeScript interface
  (\<open>collapsed?\<close>, \<open>contentMinimized?\<close>, \<open>height?\<close>, \<open>isLoading?\<close>, \<open>data?\<close>) are
  options, \<open>None\<close> standing for \<open>undefined\<close> (and for \<open>null\<close> after a JSON round trip).
  The field \<open>id\<close> is called \<open>node_id\<close>, the coordinates \<open>pos_x\<close> and \<open>pos_y\<close>, since
  \<open>id\<close>, \<open>x\<close> and \<open>y\<close> are taken in HOL. Numbers are integers: every height the
  layout engine produces is one, and no property below divides or rounds a coordinate.
  The one sum the code forms of a level is rounded as a double (\<open>roundToDouble\<close>).
\<close>

datatype NodeType = Root | Chapter | Subchapter | Detail

record Position =
  pos_x :: int
  pos_y :: int

record Quiz =
  question :: string
  quiz_options :: "string list"
  correctAnswer :: int

record LessonData =
  summary :: "string option"
  details :: "string option"
  bulletPoints :: "string list option"
  learningPoints :: "string list option"
  quiz :: "Quiz option"

record NodeData =
  node_id :: string
  parentId :: "string option"
  title :: string
  position :: Position
  level :: int
  nodeType :: NodeType
  collapsed :: "bool option"
  contentMinimized :: "bool option"
  height :: "int option"
  isLoading :: "bool option"
  data :: "LessonData option"

subsection \<open>JavaScript truthiness of the fields the code tests\<close>

definition truthyBool :: "bool option \<Rightarrow> bool" where
  "truthyBool b = (b = Some True)"

definition truthyString :: "string option \<Rightarrow> bool" where
  "truthyString s = (case s of None \<Rightarrow> False | Some t \<Rightarrow> t \<noteq> [])"

text \<open>\<open>node.data?.learningPoints\<close>: an array is truthy even when it is empty.\<close>

definition hasLearningPoints :: "NodeData \<Rightarrow> bool" where
  "hasLearningPoints node =
     (case data node of None \<Rightarrow> False | Some d \<Rightarrow> learningPoints d \<noteq> None)"

text \<open>\<open>node.data?.summary\<close>: a string is truthy when it is not empty.\<close>

definition hasSummary :: "NodeData \<Rightarrow> bool" where
  "hasSummary node =
     (case data node of None \<Rightarrow> False | Some d \<Rightarrow> truthyString (summary d))"

section \<open>Layout engine (App.tsx)\<close>

definition INDENT_X :: int where
  "INDENT_X = 80"

definition GAP_Y :: int where
  "GAP_Y = 40"

definition getNodeHeight :: "NodeData \<Rightarrow> int" where
  "getNodeHeight node =
     (if truthyBool (contentMinimized node) then 80
      else if nodeType node = Root then 180
      else if nodeType node = Detail then 550
      else if hasLearningPoints node then 320
      else if hasSummary node then 260
      else 120)"

text \<open>
  The rule table as the specification words it, keyed by \<open>nodeType\<close> and
  \<open>contentMinimized\<close>: only a subchapter is looked at for learning points and only
  a chapter for a summary. It is compared with \<open>getNodeHeight\<close> below.
\<close>

definition specHeight :: "NodeData \<Rightarrow> int" where
  "specHeight node =
     (if truthyBool (contentMinimized node) then 80
      else if nodeType node = Root then 180
      else if nodeType node = Detail then 550
      else if nodeType node = Subchapter \<and> hasLearningPoints node then 320
      else if nodeType node = Chapter \<and> hasSummary node then 260
      else 120)"

text \<open>
  \<open>computeSmartLayout\<close> closes over two mutable maps, \<open>positionMap\<close> and
  \<open>heightMap\<close>; the model threads them as a pair.
\<close>

type_synonym layout_maps = "(string \<rightharpoonup> Position) \<times> (string \<rightharpoonup> int)"

text \<open>\<open>n.nodeType === 'root' || !n.parentId\<close>: no parent is \<open>null\<close> or the empty string.\<close>

definition isRoot :: "NodeData \<Rightarrow> bool" where
  "isRoot n = (nodeType n = Root \<or> \<not> truthyString (parentId n))"

text \<open>The \<open>forEach\<close> that fills \<open>childrenMap\<close>, one node at a time.\<close>

definition addChildEntry ::
  "NodeData \<Rightarrow> (string \<rightharpoonup> NodeData list) \<Rightarrow> (string \<rightharpoonup> NodeData list)" where
  "addChildEntry n m =
     (if truthyString (parentId n)
      then m(the (parentId n) \<mapsto> (case m (the (parentId n)) of None \<Rightarrow> [] | Some l \<Rightarrow> l) @ [n])
      else m)"

definition buildChildrenMap :: "NodeData list \<Rightarrow> (string \<rightharpoonup> NodeData list)" where
  "buildChildrenMap nodes = fold addChildEntry nodes Map.empty"

text \<open>\<open>childrenMap.get(nodeId) || []\<close>\<close>

definition childrenOf :: "(string \<rightharpoonup> NodeData list) \<Rightarrow> string \<Rightarrow> NodeData list" where
  "childrenOf cm nodeId = (case cm nodeId of None \<Rightarrow> [] | Some l \<Rightarrow> l)"

text \<open>
  The \<open>children.forEach\<close> of \<open>layoutNode\<close>: \<open>rec\<close> is the recursive call, the
  running cursor \<open>currentChildY\<close> and the sum \<open>totalSubTreeHeight\<close> are the loop's
  variables.
\<close>

primrec layoutChildren ::
  "(string \<Rightarrow> int \<Rightarrow> int \<Rightarrow> layout_maps \<Rightarrow> (int \<times> layout_maps) option)
   \<Rightarrow> NodeData list \<Rightarrow> int \<Rightarrow> int \<Rightarrow> int \<Rightarrow> layout_maps \<Rightarrow> (int \<times> layout_maps) option" where
  "layoutChildren rec [] childX currentChildY totalSubTreeHeight st =
     Some (totalSubTreeHeight, st)"
| "layoutChildren rec (child # rest) childX currentChildY totalSubTreeHeight st =
     (case rec (node_id child) childX currentChildY st of
        None \<Rightarrow> None
      | Some (childHeight, st') \<Rightarrow>
          layoutChildren rec rest childX (currentChildY + (childHeight + GAP_Y))
            (totalSubTreeHeight + (childHeight + GAP_Y)) st')"

text \<open>
  \<open>layoutNode\<close> recurses along the parent links of the node set, which nothing
  forces to be acyclic: on a cycle of expanded nodes the JavaScript overflows its
  stack. The first argument is the call depth that is left; \<open>None\<close> is the overflow.
\<close>

fun layoutNode ::
  "nat \<Rightarrow> NodeData list \<Rightarrow> (string \<rightharpoonup> NodeData list) \<Rightarrow> string \<Rightarrow> int \<Rightarrow> int
   \<Rightarrow> layout_maps \<Rightarrow> (int \<times> layout_maps) option" where
  "layoutNode 0 newNodes cm nodeId x y st = None"
| "layoutNode (Suc d) newNodes cm nodeId x y st =
     (case find (\<lambda>n. node_id n = nodeId) newNodes of
        None \<Rightarrow> Some (0, st)
      | Some node \<Rightarrow>
          (let myHeight = getNodeHeight node;
               st1 = ((fst st)(nodeId \<mapsto> \<lparr>pos_x = x, pos_y = y\<rparr>),
                      (snd st)(nodeId \<mapsto> myHeight))
           in if truthyBool (collapsed node) then Some (myHeight, st1)
              else if childrenOf cm nodeId = [] then Some (myHeight, st1)
              else layoutChildren (\<lambda>i cx cy s. layoutNode d newNodes cm i cx cy s)
                     (childrenOf cm nodeId) (x + INDENT_X) (y + myHeight + GAP_Y)
                     (myHeight + GAP_Y) st1))"

text \<open>\<open>roots.forEach(root => layoutNode(root.id, root.position.x, root.position.y))\<close>\<close>

primrec layoutRoots ::
  "nat \<Rightarrow> NodeData list \<Rightarrow> (string \<rightharpoonup> NodeData list) \<Rightarrow> NodeData list \<Rightarrow> layout_maps
   \<Rightarrow> layout_maps option" where
  "layoutRoots d newNodes cm [] st = Some st"
| "layoutRoots d newNodes cm (root # rest) st =
     (case layoutNode d newNodes cm (node_id root) (pos_x (position root))
             (pos_y (position root)) st of
        None \<Rightarrow> None
      | Some (h, st') \<Rightarrow> layoutRoots d newNodes cm rest st')"

text \<open>The maps once every root has been laid out.\<close>

definition layoutMaps :: "nat \<Rightarrow> NodeData list \<Rightarrow> layout_maps option" where
  "layoutMaps d nodes =
     layoutRoots d nodes (buildChildrenMap nodes) (filter isRoot nodes) (Map.empty, Map.empty)"

text \<open>The final \<open>map\<close>: \<open>pos && h\<close> asks for both entries, and for a height that is not 0.\<close>

definition applyLayout :: "layout_maps \<Rightarrow> NodeData \<Rightarrow> NodeData" where
  "applyLayout st n =
     (case fst st (node_id n) of
        None \<Rightarrow> n
      | Some pos \<Rightarrow>
          (case snd st (node_id n) of
             None \<Rightarrow> n
           | Some h \<Rightarrow> if h \<noteq> 0 then n\<lparr>position := pos, height := Some h\<rparr> else n))"

definition computeSmartLayout :: "nat \<Rightarrow> NodeData list \<Rightarrow> NodeData list option" where
  "computeSmartLayout d nodes =
     (case layoutMaps d nodes of
        None \<Rightarrow> None
      | Some st \<Rightarrow> Some (map (applyLayout st) nodes))"

text \<open>
  The footprint \<open>layoutNode\<close> returns for a node, read off a run from the origin on
  empty maps (it depends on neither, see \<open>layoutNode_footprint\<close>).
\<close>

definition subtreeFootprint :: "nat \<Rightarrow> NodeData list \<Rightarrow> string \<Rightarrow> int option" where
  "subtreeFootprint d nodes nodeId =
     map_option fst
       (layoutNode d nodes (buildChildrenMap nodes) nodeId 0 0 (Map.empty, Map.empty))"

section \<open>Visibility resolver (App.tsx)\<close>

text \<open>
  The \<open>while\<close> loop over the queue. It does not mark what it has dequeued, so it
  runs forever on a cycle of expanded nodes below a root; the first argument bounds
  the number of iterations, \<open>None\<close> is the loop still running.
\<close>

fun visitQueue ::
  "nat \<Rightarrow> NodeData list \<Rightarrow> NodeData list \<Rightarrow> string set \<Rightarrow> string set option" where
  "visitQueue k nodes [] visibleSet = Some visibleSet"
| "visitQueue 0 nodes (current # queue) visibleSet = None"
| "visitQueue (Suc k) nodes (current # queue) visibleSet =
     (if node_id current \<in> visibleSet \<and> \<not> truthyBool (collapsed current)
      then visitQueue k nodes
             (queue @ filter (\<lambda>n. parentId n = Some (node_id current)) nodes)
             (visibleSet \<union> set (map node_id
                (filter (\<lambda>n. parentId n = Some (node_id current)) nodes)))
      else visitQueue k nodes queue visibleSet)"

definition visibleSetOf :: "nat \<Rightarrow> NodeData list \<Rightarrow> string set option" where
  "visibleSetOf k nodes =
     visitQueue k nodes (filter isRoot nodes) (set (map node_id (filter isRoot nodes)))"

definition visibleNodes :: "nat \<Rightarrow> NodeData list \<Rightarrow> NodeData list option" where
  "visibleNodes k nodes =
     (case visibleSetOf k nodes of
        None \<Rightarrow> None
      | Some visibleSet \<Rightarrow> Some (filter (\<lambda>n. node_id n \<in> visibleSet) nodes))"

section \<open>Mutation operations (App.tsx)\<close>

definition toggleCollapsed :: "string \<Rightarrow> NodeData \<Rightarrow> NodeData" where
  "toggleCollapsed nodeId n =
     (if node_id n = nodeId then n\<lparr>collapsed := Some (\<not> truthyBool (collapsed n))\<rparr> else n)"

definition handleToggleCollapse :: "nat \<Rightarrow> string \<Rightarrow> NodeData list \<Rightarrow> NodeData list option" where
  "handleToggleCollapse d nodeId prev = computeSmartLayout d (map (toggleCollapsed nodeId) prev)"

definition nextNodeType :: "NodeType \<Rightarrow> NodeType" where
  "nextNodeType t = (if t = Root then Chapter else if t = Chapter then Subchapter else Detail)"

text \<open>
  \<open>parent.level + 1\<close> is an addition of doubles. Levels are whole numbers in the
  model; the exact sum is rounded to the nearest number with 53 significant bits,
  a tie going to the one whose last bit is 0. Up to \<open>2 ^ 53\<close> in magnitude nothing is
  rounded. \<open>bitLength\<close> is the number of binary digits of a positive number.
\<close>

fun bitLength :: "int \<Rightarrow> nat" where
  "bitLength n = (if n \<le> 0 then 0 else Suc (bitLength (n div 2)))"

declare bitLength.simps [simp del]

definition roundToDouble :: "int \<Rightarrow> int" where
  "roundToDouble v =
     (if \<bar>v\<bar> \<le> 2 ^ 53 then v
      else (let a = \<bar>v\<bar>;
                u = 2 ^ (bitLength a - 53);
                q = a div u;
                r = a mod u;
                q' = (if 2 * r < u then q
                      else if u < 2 * r then q + 1
                      else if even q then q else q + 1)
            in sgn v * (q' * u)))"

text \<open>The node \<open>handleAddChild\<close> builds; \<open>newId\<close> is what \<open>generateId()\<close> returned.\<close>

definition newChildNode :: "string \<Rightarrow> string \<Rightarrow> NodeData \<Rightarrow> NodeData" where
  "newChildNode newId pid parent =
     \<lparr>node_id = newId, parentId = Some pid, title = ''Node Baru'',
      position = \<lparr>pos_x = pos_x (position parent) + INDENT_X,
                  pos_y = pos_y (position parent) + 100\<rparr>,
      level = roundToDouble (level parent + 1), nodeType = nextNodeType (nodeType parent),
      collapsed = Some False, contentMinimized = Some True, height = None,
      isLoading = None, data = None\<rparr>"

text \<open>
  \<open>handleAddChild\<close>: the two \<open>setNodes\<close> updaters run one after the other on the
  store, the second only when the parent that was found is collapsed.
\<close>

definition handleAddChild ::
  "nat \<Rightarrow> string \<Rightarrow> string \<Rightarrow> NodeData list \<Rightarrow> NodeData list option" where
  "handleAddChild d newId pid nodes =
     (case find (\<lambda>n. node_id n = pid) nodes of
        None \<Rightarrow> Some nodes
      | Some parent \<Rightarrow>
          (case computeSmartLayout d (nodes @ [newChildNode newId pid parent]) of
             None \<Rightarrow> None
           | Some nodes1 \<Rightarrow>
               if truthyBool (collapsed parent) then handleToggleCollapse d pid nodes1
               else Some nodes1))"

text \<open>The \<open>children.forEach\<close> of \<open>deleteRecursive\<close>, threading \<open>remaining\<close>.\<close>

primrec deleteChildren ::
  "(string \<Rightarrow> NodeData list \<Rightarrow> NodeData list option) \<Rightarrow> NodeData list \<Rightarrow> NodeData list
   \<Rightarrow> NodeData list option" where
  "deleteChildren rec [] remaining = Some remaining"
| "deleteChildren rec (child # rest) remaining =
     (case rec (node_id child) remaining of
        None \<Rightarrow> None
      | Some remaining' \<Rightarrow> deleteChildren rec rest remaining')"

text \<open>
  \<open>deleteRecursive\<close>, with the call depth that is left as first argument. It always
  returns when given a depth above twice the number of nodes
  (\<open>deleteRecursive_returns\<close>).
\<close>

fun deleteRecursive :: "nat \<Rightarrow> string \<Rightarrow> NodeData list \<Rightarrow> NodeData list option" where
  "deleteRecursive 0 nodeId currentNodes = None"
| "deleteRecursive (Suc d) nodeId currentNodes =
     deleteChildren (\<lambda>i r. deleteRecursive d i r)
       (filter (\<lambda>n. parentId n = Some nodeId) currentNodes)
       (filter (\<lambda>n. node_id n \<noteq> nodeId) currentNodes)"

definition handleDelete :: "nat \<Rightarrow> string \<Rightarrow> NodeData list \<Rightarrow> NodeData list option" where
  "handleDelete d nodeId prev =
     (case deleteRecursive d nodeId prev of
        None \<Rightarrow> None
      | Some remaining \<Rightarrow> computeSmartLayout d remaining)"

section \<open>Content provider (services/aiService.ts)\<close>

text \<open>
  Each operation awaits \<open>ai.models.generateContent\<close> and then looks at
  \<open>response.text\<close>, a string or \<open>undefined\<close>. The model is the code after the
  \<open>await\<close>: it takes \<open>response.text\<close> as a \<open>string option\<close>. A thrown \<open>Error\<close> is
  \<open>Inl\<close> with its message. \<open>JSON.parse\<close> followed by the field selection is the
  parameter \<open>parse\<close>, which may fail itself.
\<close>

datatype provider_error = Error string | SyntaxError

definition isSpace :: "char \<Rightarrow> bool" where
  "isSpace c = (c \<in> set [CHR '' '', CHR 0x09, CHR 0x0A, CHR 0x0B, CHR 0x0C, CHR 0x0D])"

text \<open>\<open>String.prototype.trim\<close>, on the ASCII white space.\<close>

definition trim :: "string \<Rightarrow> string" where
  "trim s = rev (dropWhile isSpace (rev (dropWhile isSpace s)))"

definition generateTopicTitle :: "string option \<Rightarrow> provider_error + string" where
  "generateTopicTitle text =
     (if truthyString text then Inr (trim (the text)) else Inr ''Topik Baru'')"

definition generateChapters ::
  "(string \<Rightarrow> provider_error + 'a) \<Rightarrow> string option \<Rightarrow> provider_error + 'a" where
  "generateChapters parse text =
     (if truthyString text then parse (the text) else Inl (Error ''Gagal membuat bab.''))"

definition generateSubChapters ::
  "(string \<Rightarrow> provider_error + 'a) \<Rightarrow> string option \<Rightarrow> provider_error + 'a" where
  "generateSubChapters parse text =
     (if truthyString text then parse (the text) else Inl (Error ''Gagal membuat sub-bab.''))"

definition generateDetails ::
  "(string \<Rightarrow> provider_error + 'a) \<Rightarrow> string option \<Rightarrow> provider_error + 'a" where
  "generateDetails parse text =
     (if truthyString text then parse (the text)
      else Inl (Error ''Gagal membuat penjelasan detail.''))"

text \<open>An empty response: no text at all, or the empty string.\<close>

definition emptyResponse :: "string option \<Rightarrow> bool" where
  "emptyResponse text = (text = None \<or> text = Some [])"

section \<open>Auxiliary notions for the proofs\<close>

text \<open>
  What a traversal writes is read off a run on empty maps: \<open>mapsAdd st w\<close> is \<open>st\<close>
  overwritten with the writes \<open>w\<close>, and \<open>framed rec\<close> says that \<open>rec\<close> only adds
  its writes to the maps it is given.
\<close>

definition emptyMaps :: layout_maps where
  "emptyMaps = (Map.empty, Map.empty)"

definition mapsAdd :: "layout_maps \<Rightarrow> layout_maps \<Rightarrow> layout_maps" where
  "mapsAdd st w = (fst st ++ fst w, snd st ++ snd w)"

definition framed ::
  "(string \<Rightarrow> int \<Rightarrow> int \<Rightarrow> layout_maps \<Rightarrow> (int \<times> layout_maps) option) \<Rightarrow> bool" where
  "framed rec =
     (\<forall>i x y st. rec i x y st
        = map_option (\<lambda>(h, w). (h, mapsAdd st w)) (rec i x y emptyMaps))"

text \<open>
  Two runs have the same shape when they wrote the same heights under the same keys;
  the positions may differ.
\<close>

definition sameShape :: "layout_maps \<Rightarrow> layout_maps \<Rightarrow> bool" where
  "sameShape st st' = (dom (fst st) = dom (fst st') \<and> snd st = snd st')"

definition sameResult :: "int \<times> layout_maps \<Rightarrow> int \<times> layout_maps \<Rightarrow> bool" where
  "sameResult r r' = (fst r = fst r' \<and> sameShape (snd r) (snd r'))"

text \<open>
  The nodes the breadth-first traversal can come to from a set of start nodes: a
  start node, or a node of the set whose \<open>parentId\<close> is the id of such a node that
  is not collapsed.
\<close>

inductive reach :: "NodeData list \<Rightarrow> NodeData set \<Rightarrow> NodeData \<Rightarrow> bool"
  for nodes :: "NodeData list" and starts :: "NodeData set" where
  start: "u \<in> starts \<Longrightarrow> reach nodes starts u"
| step: "reach nodes starts u \<Longrightarrow> \<not> truthyBool (collapsed u) \<Longrightarrow> c \<in> set nodes \<Longrightarrow>
         parentId c = Some (node_id u) \<Longrightarrow> reach nodes starts c"

text \<open>
  A node hangs from a root through expanded ancestors when it is a root, or its
  parent does so and is not collapsed.
\<close>

definition underOpenAncestors :: "NodeData list \<Rightarrow> NodeData \<Rightarrow> bool" where
  "underOpenAncestors nodes u = reach nodes (set (filter isRoot nodes)) u"

text \<open>
  The ids of the strict descendants of the node id \<open>a\<close>: the ids of the nodes whose
  chain of \<open>parentId\<close> links leads to \<open>a\<close>.
\<close>

inductive strictDescendant :: "NodeData list \<Rightarrow> string \<Rightarrow> string \<Rightarrow> bool"
  for nodes :: "NodeData list" and a :: string where
  child: "c \<in> set nodes \<Longrightarrow> parentId c = Some a \<Longrightarrow> strictDescendant nodes a (node_id c)"
| below: "strictDescendant nodes a m \<Longrightarrow> c \<in> set nodes \<Longrightarrow> parentId c = Some m \<Longrightarrow>
          strictDescendant nodes a (node_id c)"

text \<open>An orphan: a node that is no root and whose \<open>parentId\<close> is the id of no node.\<close>

definition orphan :: "NodeData list \<Rightarrow> NodeData \<Rightarrow> bool" where
  "orphan nodes u = (\<not> isRoot u \<and> parentId u \<notin> set (map (\<lambda>n. Some (node_id n)) nodes))"

text \<open>
  What the traversals read of a node besides its position: two node lists with the
  same skeletons are laid out and resolved alike.
\<close>

definition skeleton ::
  "NodeData \<Rightarrow> string \<times> string option \<times> NodeType \<times> bool \<times> int" where
  "skeleton u =
     (node_id u, parentId u, nodeType u, truthyBool (collapsed u), getNodeHeight u)"

text \<open>
  While the children of \<open>a\<close> are being deleted, a node of \<open>remaining\<close> whose parent
  has gone is one of the children still to come.
\<close>

definition pendingOrphans ::
  "NodeData list \<Rightarrow> string \<Rightarrow> NodeData list \<Rightarrow> NodeData list \<Rightarrow> bool" where
  "pendingOrphans L a rem cs =
     (\<forall>u\<in>set rem. \<forall>p. parentId u = Some p \<longrightarrow> (p \<in> node_id ` set L \<or> p = a) \<longrightarrow>
        p \<notin> node_id ` set rem \<longrightarrow> u \<in> set cs)"

text \<open>
  The ids a traversal from \<open>nodeId\<close> writes (none when it does not return), and the
  sets of ids that contain, with each id, all that a traversal from it writes.
\<close>

definition visitedBy ::
  "nat \<Rightarrow> NodeData list \<Rightarrow> (string \<rightharpoonup> NodeData list) \<Rightarrow> string \<Rightarrow> string set" where
  "visitedBy d nodes cm nodeId =
     (case layoutNode d nodes cm nodeId 0 0 emptyMaps of
        None \<Rightarrow> {}
      | Some r \<Rightarrow> dom (fst (snd r)))"

definition closedIds ::
  "nat \<Rightarrow> NodeData list \<Rightarrow> (string \<rightharpoonup> NodeData list) \<Rightarrow> string set \<Rightarrow> bool" where
  "closedIds d nodes cm C = (\<forall>v\<in>C. visitedBy d nodes cm v \<subseteq> C)"

text \<open>The two cases in which \<open>layoutNode\<close> returns without laying out children.\<close>

definition leafAt :: "(string \<rightharpoonup> NodeData list) \<Rightarrow> string \<Rightarrow> NodeData \<Rightarrow> bool" where
  "leafAt cm i node = (truthyBool (collapsed node) \<or> childrenOf cm i = [])"

text \<open>Maps with the same keys and no height 0: every entry passes the test \<open>pos && h\<close>.\<close>

definition goodMaps :: "layout_maps \<Rightarrow> bool" where
  "goodMaps st = (dom (fst st) = dom (snd st) \<and> (\<forall>v h. snd st v = Some h \<longrightarrow> h \<noteq> 0))"

text \<open>Every height the engine has recorded is the height of the node it looked up.\<close>

definition heightsOk :: "NodeData list \<Rightarrow> layout_maps \<Rightarrow> bool" where
  "heightsOk nodes st =
     (\<forall>v h. snd st v = Some h \<longrightarrow>
        (\<exists>node. find (\<lambda>n. node_id n = v) nodes = Some node \<and> h = getNodeHeight node))"

text \<open>
  Node sets in which the level grows from every node to its children, and the span
  of the levels of a node set. Such a node set has no cycle of parent links; the
  span bounds the depth of the layout engine's recursion, and \<open>queueBound n s\<close> the
  number of iterations of the resolver's loop on \<open>n\<close> nodes whose levels span \<open>s\<close>.
  The application gives a root the level 0 and a child its parent's level plus one.
\<close>

definition levelled :: "NodeData list \<Rightarrow> bool" where
  "levelled nodes =
     (\<forall>c\<in>set nodes. \<forall>p\<in>set nodes. parentId c = Some (node_id p) \<longrightarrow> level p < level c)"

definition levelSpan :: "NodeData list \<Rightarrow> nat" where
  "levelSpan nodes =
     (if nodes = [] then 0
      else nat (Max (set (map level nodes)) - Min (set (map level nodes))))"

definition queueBound :: "nat \<Rightarrow> nat \<Rightarrow> nat" where
  "queueBound n s = n * (n + 1) ^ s"

text \<open>
  A list of ids on which the layout engine runs in a circle: each is the id of a
  node that is found, is not collapsed and has a child whose id is in the list.
\<close>

definition openCycle :: "NodeData list \<Rightarrow> string list \<Rightarrow> bool" where
  "openCycle nodes ids =
     (\<forall>i\<in>set ids.
        case find (\<lambda>u. node_id u = i) nodes of
          None \<Rightarrow> False
        | Some n \<Rightarrow> \<not> truthyBool (collapsed n)
            \<and> (\<exists>c\<in>set (childrenOf (buildChildrenMap nodes) i). node_id c \<in> set ids))"

section \<open>Example nodes\<close>

definition blankNode :: NodeData where
  "blankNode =
     \<lparr>node_id = ''n'', parentId = None, title = ''Node Baru'',
      position = \<lparr>pos_x = 0, pos_y = 0\<rparr>, level = 0, nodeType = Chapter,
      collapsed = Some False, contentMinimized = Some False, height = None,
      isLoading = None, data = None\<rparr>"

definition pointsOnly :: LessonData where
  "pointsOnly =
     \<lparr>summary = None, details = None, bulletPoints = None,
      learningPoints = Some [''a''], quiz = None\<rparr>"

definition summaryOnly :: LessonData where
  "summaryOnly =
     \<lparr>summary = Some ''s'', details = None, bulletPoints = None,
      learningPoints = None, quiz = None\<rparr>"

definition mkNode :: "string \<Rightarrow> string option \<Rightarrow> NodeType \<Rightarrow> bool \<Rightarrow> NodeData" where
  "mkNode i p t c = blankNode\<lparr>node_id := i, parentId := p, nodeType := t, collapsed := Some c\<rparr>"

text \<open>A root \<open>r\<close> with the chapter \<open>a\<close> below it and the subchapter \<open>b\<close> below \<open>a\<close>.\<close>

definition exTree :: "NodeData list" where
  "exTree =
     [mkNode ''r'' None Root False, mkNode ''a'' (Some ''r'') Chapter False,
      mkNode ''b'' (Some ''a'') Subchapter False]"

text \<open>The same nodes with the levels 0, 1 and 2 that the application gives them.\<close>

definition exLevels :: "NodeData list" where
  "exLevels =
     [mkNode ''r'' None Root False,
      (mkNode ''a'' (Some ''r'') Chapter False)\<lparr>level := 1\<rparr>,
      (mkNode ''b'' (Some ''a'') Subchapter False)\<lparr>level := 2\<rparr>]"

section \<open>Node heights\<close>

text \<open>
  C5, as stated, fails: the code never looks at the node type once the node is
  neither a root nor a detail. An expanded chapter that carries a list of learning
  points gets 320, where the table of the claim gives it the default 120.
\<close>

theorem C5_chapter_with_points_counterexample:
  "nodeType (blankNode\<lparr>data := Some pointsOnly\<rparr>) = Chapter
   \<and> getNodeHeight (blankNode\<lparr>data := Some pointsOnly\<rparr>) = 320
   \<and> specHeight (blankNode\<lparr>data := Some pointsOnly\<rparr>) = 120"
  by (simp add: getNodeHeight_def specHeight_def blankNode_def pointsOnly_def
      truthyBool_def hasLearningPoints_def hasSummary_def truthyString_def)

text \<open>
  C5, amended: a minimized node is 80 high whatever its type; otherwise a root is
  180 and a detail 550; any other node with a list of learning points is 320, any
  other node with a non-empty summary is 260, and the rest are 120, whatever the
  node type. The height is that of the table of the claim exactly on the nodes that
  are minimized, or are neither a chapter with a list of learning points nor a
  subchapter with a summary and no list of learning points.
\<close>

theorem C5_getNodeHeight_table:
  "(truthyBool (contentMinimized n) \<longrightarrow> getNodeHeight n = 80)
   \<and> (\<not> truthyBool (contentMinimized n) \<and> nodeType n = Root \<longrightarrow> getNodeHeight n = 180)
   \<and> (\<not> truthyBool (contentMinimized n) \<and> nodeType n = Detail \<longrightarrow> getNodeHeight n = 550)
   \<and> (\<not> truthyBool (contentMinimized n) \<and> nodeType n \<notin> {Root, Detail}
        \<and> hasLearningPoints n \<longrightarrow> getNodeHeight n = 320)
   \<and> (\<not> truthyBool (contentMinimized n) \<and> nodeType n \<notin> {Root, Detail}
        \<and> \<not> hasLearningPoints n \<and> hasSummary n \<longrightarrow> getNodeHeight n = 260)
   \<and> (\<not> truthyBool (contentMinimized n) \<and> nodeType n \<notin> {Root, Detail}
        \<and> \<not> hasLearningPoints n \<and> \<not> hasSummary n \<longrightarrow> getNodeHeight n = 120)
   \<and> ((getNodeHeight n = specHeight n)
        = (truthyBool (contentMinimized n)
           \<or> \<not> (nodeType n = Chapter \<and> hasLearningPoints n)
             \<and> \<not> (nodeType n = Subchapter \<and> hasSummary n \<and> \<not> hasLearningPoints n)))"
  by (cases "nodeType n") (simp_all add: getNodeHeight_def specHeight_def)

theorem C5_getNodeHeight_table_witness:
  "\<not> truthyBool (contentMinimized (blankNode\<lparr>data := Some summaryOnly\<rparr>))
   \<and> nodeType (blankNode\<lparr>data := Some summaryOnly\<rparr>) \<notin> {Root, Detail}
   \<and> \<not> hasLearningPoints (blankNode\<lparr>data := Some summaryOnly\<rparr>)
   \<and> hasSummary (blankNode\<lparr>data := Some summaryOnly\<rparr>)
   \<and> getNodeHeight (blankNode\<lparr>data := Some summaryOnly\<rparr>) = 260
   \<and> getNodeHeight (blankNode\<lparr>data := Some summaryOnly\<rparr>)
       = specHeight (blankNode\<lparr>data := Some summaryOnly\<rparr>)
   \<and> truthyBool (contentMinimized (blankNode\<lparr>data := Some pointsOnly, contentMinimized := Some True\<rparr>))
   \<and> nodeType (blankNode\<lparr>data := Some pointsOnly, contentMinimized := Some True\<rparr>) = Chapter
   \<and> hasLearningPoints (blankNode\<lparr>data := Some pointsOnly, contentMinimized := Some True\<rparr>)
   \<and> getNodeHeight (blankNode\<lparr>data := Some pointsOnly, contentMinimized := Some True\<rparr>) = 80
   \<and> specHeight (blankNode\<lparr>data := Some pointsOnly, contentMinimized := Some True\<rparr>)
       = getNodeHeight (blankNode\<lparr>data := Some pointsOnly, contentMinimized := Some True\<rparr>)
   \<and> nodeType (blankNode\<lparr>nodeType := Subchapter, data := Some summaryOnly\<rparr>) = Subchapter
   \<and> getNodeHeight (blankNode\<lparr>nodeType := Subchapter, data := Some summaryOnly\<rparr>)
       \<noteq> specHeight (blankNode\<lparr>nodeType := Subchapter, data := Some summaryOnly\<rparr>)"
  using C5_getNodeHeight_table [of "blankNode\<lparr>data := Some summaryOnly\<rparr>"]
    C5_getNodeHeight_table [of "blankNode\<lparr>data := Some pointsOnly, contentMinimized := Some True\<rparr>"]
    C5_getNodeHeight_table [of "blankNode\<lparr>nodeType := Subchapter, data := Some summaryOnly\<rparr>"]
  by (simp add: blankNode_def summaryOnly_def pointsOnly_def truthyBool_def hasLearningPoints_def
      hasSummary_def truthyString_def)

section \<open>Provider failures\<close>

text \<open>
  C6, as stated, fails for the title operation: on an empty response
  \<open>generateTopicTitle\<close> does not fail, it answers with the fallback title.
\<close>

theorem C6_title_fallback_counterexample:
  "emptyResponse None \<and> generateTopicTitle None = Inr ''Topik Baru''
   \<and> emptyResponse (Some []) \<and> generateTopicTitle (Some []) = Inr ''Topik Baru''"
  by (simp add: emptyResponse_def generateTopicTitle_def truthyString_def)

text \<open>
  C6, amended: on an empty response each of the three structured operations
  (\<open>generateChapters\<close>, \<open>generateSubChapters\<close>, \<open>generateDetails\<close>) fails with its
  provider error, whatever the parser; \<open>generateTopicTitle\<close> returns the fallback
  title \<open>Topik Baru\<close> instead of failing.
\<close>

theorem C6_empty_response:
  "emptyResponse text \<Longrightarrow>
     generateChapters parse1 text = Inl (Error ''Gagal membuat bab.'')
     \<and> generateSubChapters parse2 text = Inl (Error ''Gagal membuat sub-bab.'')
     \<and> generateDetails parse3 text = Inl (Error ''Gagal membuat penjelasan detail.'')
     \<and> generateTopicTitle text = Inr ''Topik Baru''"
  by (auto simp: emptyResponse_def generateChapters_def generateSubChapters_def
      generateDetails_def generateTopicTitle_def truthyString_def)

theorem C6_empty_response_witness:
  "emptyResponse (Some [])
   \<and> generateChapters (\<lambda>s. Inr (length s)) (Some []) = Inl (Error ''Gagal membuat bab.'')
   \<and> generateSubChapters (\<lambda>s. Inr (length s)) (Some []) = Inl (Error ''Gagal membuat sub-bab.'')
   \<and> generateDetails (\<lambda>s. Inr (length s)) (Some [])
       = Inl (Error ''Gagal membuat penjelasan detail.'')"
proof -
  have e: "emptyResponse (Some [])"
    by (simp add: emptyResponse_def)
  show ?thesis
    using e C6_empty_response [OF e, of "\<lambda>s. Inr (length s)" "\<lambda>s. Inr (length s)"
        "\<lambda>s. Inr (length s)"]
    by simp
qed

section \<open>Layout engine: the traversal\<close>

lemma mapsAdd_empty [simp]: "mapsAdd emptyMaps w = w" "mapsAdd w emptyMaps = w"
  by (simp_all add: mapsAdd_def emptyMaps_def)

lemma mapsAdd_assoc: "mapsAdd (mapsAdd a b) c = mapsAdd a (mapsAdd b c)"
  by (simp add: mapsAdd_def)

lemma layoutNode_missing:
  "find (\<lambda>n. node_id n = i) ns = None \<Longrightarrow> layoutNode (Suc d) ns cm i x y st = Some (0, st)"
  by simp

lemma layoutNode_leaf:
  "find (\<lambda>n. node_id n = i) ns = Some node \<Longrightarrow>
   truthyBool (collapsed node) \<or> childrenOf cm i = [] \<Longrightarrow>
   layoutNode (Suc d) ns cm i x y st
     = Some (getNodeHeight node,
         ((fst st)(i \<mapsto> \<lparr>pos_x = x, pos_y = y\<rparr>), (snd st)(i \<mapsto> getNodeHeight node)))"
  by (auto simp: Let_def)

lemma layoutNode_inner:
  "find (\<lambda>n. node_id n = i) ns = Some node \<Longrightarrow>
   \<not> (truthyBool (collapsed node) \<or> childrenOf cm i = []) \<Longrightarrow>
   layoutNode (Suc d) ns cm i x y st
     = layoutChildren (layoutNode d ns cm) (childrenOf cm i) (x + INDENT_X)
         (y + getNodeHeight node + GAP_Y) (getNodeHeight node + GAP_Y)
         ((fst st)(i \<mapsto> \<lparr>pos_x = x, pos_y = y\<rparr>), (snd st)(i \<mapsto> getNodeHeight node))"
  by (simp add: Let_def)

declare layoutNode.simps(2) [simp del]

lemma childrenOf_addChildEntry:
  "childrenOf (addChildEntry n m) i
     = childrenOf m i @ (if truthyString (parentId n) \<and> parentId n = Some i then [n] else [])"
proof (cases "parentId n")
  case None
  then show ?thesis by (simp add: addChildEntry_def truthyString_def)
next
  case (Some p)
  then show ?thesis by (auto simp: addChildEntry_def childrenOf_def truthyString_def)
qed

lemma childrenOf_fold:
  "childrenOf (fold addChildEntry ns m) i
     = childrenOf m i @ filter (\<lambda>n. truthyString (parentId n) \<and> parentId n = Some i) ns"
proof (induction ns arbitrary: m)
  case Nil
  then show ?case by simp
next
  case (Cons n ns)
  have "childrenOf (fold addChildEntry (n # ns) m) i
      = childrenOf (addChildEntry n m) i
        @ filter (\<lambda>n. truthyString (parentId n) \<and> parentId n = Some i) ns"
    using Cons.IH [of "addChildEntry n m"] by simp
  then show ?case
    by (simp only: childrenOf_addChildEntry) auto
qed

lemma childrenOf_build:
  "childrenOf (buildChildrenMap ns) i
     = filter (\<lambda>n. truthyString (parentId n) \<and> parentId n = Some i) ns"
  by (simp add: buildChildrenMap_def childrenOf_fold) (simp add: childrenOf_def)

lemma layoutChildren_framed:
  assumes "framed rec"
  shows "layoutChildren rec cs cx cy t st
     = map_option (\<lambda>(h, w). (h, mapsAdd st w)) (layoutChildren rec cs cx cy t emptyMaps)"
proof (induction cs arbitrary: cy t st)
  case Nil
  then show ?case by simp
next
  case (Cons c cs)
  have r: "rec (node_id c) cx cy st
      = map_option (\<lambda>(h, w). (h, mapsAdd st w)) (rec (node_id c) cx cy emptyMaps)"
    using assms unfolding framed_def by blast
  show ?case
  proof (cases "rec (node_id c) cx cy emptyMaps")
    case None
    then show ?thesis using r by simp
  next
    case (Some a)
    obtain h1 w1 where a: "a = (h1, w1)" by (cases a)
    have 1: "layoutChildren rec cs cx (cy + (h1 + GAP_Y)) (t + (h1 + GAP_Y)) (mapsAdd st w1)
       = map_option (\<lambda>(h, w). (h, mapsAdd (mapsAdd st w1) w))
           (layoutChildren rec cs cx (cy + (h1 + GAP_Y)) (t + (h1 + GAP_Y)) emptyMaps)"
      by (rule Cons.IH)
    have 2: "layoutChildren rec cs cx (cy + (h1 + GAP_Y)) (t + (h1 + GAP_Y)) w1
       = map_option (\<lambda>(h, w). (h, mapsAdd w1 w))
           (layoutChildren rec cs cx (cy + (h1 + GAP_Y)) (t + (h1 + GAP_Y)) emptyMaps)"
      by (rule Cons.IH)
    have "layoutChildren rec (c # cs) cx cy t st
        = layoutChildren rec cs cx (cy + (h1 + GAP_Y)) (t + (h1 + GAP_Y)) (mapsAdd st w1)"
      using r Some a by simp
    moreover have "layoutChildren rec (c # cs) cx cy t emptyMaps
        = layoutChildren rec cs cx (cy + (h1 + GAP_Y)) (t + (h1 + GAP_Y)) w1"
      using Some a by simp
    ultimately show ?thesis
      unfolding 1 2
      by (simp add: option.map_comp comp_def case_prod_unfold mapsAdd_assoc)
  qed
qed

lemma layoutNode_framed: "framed (layoutNode d ns cm)"
proof (induction d)
  case 0
  then show ?case by (simp add: framed_def)
next
  case (Suc d)
  show ?case
    unfolding framed_def
  proof (intro allI)
    fix i x y st
    show "layoutNode (Suc d) ns cm i x y st
        = map_option (\<lambda>(h, w). (h, mapsAdd st w)) (layoutNode (Suc d) ns cm i x y emptyMaps)"
    proof (cases "find (\<lambda>n. node_id n = i) ns")
      case None
      then show ?thesis by (simp add: layoutNode_missing emptyMaps_def mapsAdd_def)
    next
      case (Some node)
      let ?s1 = "([i \<mapsto> \<lparr>pos_x = x, pos_y = y\<rparr>], [i \<mapsto> getNodeHeight node])"
      have s1: "((fst st)(i \<mapsto> \<lparr>pos_x = x, pos_y = y\<rparr>), (snd st)(i \<mapsto> getNodeHeight node)) = mapsAdd st ?s1"
        by (simp add: mapsAdd_def)
      have s2: "((fst emptyMaps)(i \<mapsto> \<lparr>pos_x = x, pos_y = y\<rparr>), (snd emptyMaps)(i \<mapsto> getNodeHeight node)) = ?s1"
        by (simp add: emptyMaps_def)
      have a: "\<And>cs cx cy t s. layoutChildren (layoutNode d ns cm) cs cx cy t s
          = map_option (\<lambda>(h, w). (h, mapsAdd s w)) (layoutChildren (layoutNode d ns cm) cs cx cy t emptyMaps)"
        by (rule layoutChildren_framed [OF Suc])
      show ?thesis
      proof (cases "truthyBool (collapsed node) \<or> childrenOf cm i = []")
        case True
        then show ?thesis
          using Some by (simp add: layoutNode_leaf mapsAdd_def emptyMaps_def)
      next
        case False
        have l: "layoutNode (Suc d) ns cm i x y st
            = layoutChildren (layoutNode d ns cm) (childrenOf cm i) (x + INDENT_X)
                (y + getNodeHeight node + GAP_Y) (getNodeHeight node + GAP_Y) (mapsAdd st ?s1)"
          using Some False by (simp add: layoutNode_inner mapsAdd_def)
        have r: "layoutNode (Suc d) ns cm i x y emptyMaps
            = layoutChildren (layoutNode d ns cm) (childrenOf cm i) (x + INDENT_X)
                (y + getNodeHeight node + GAP_Y) (getNodeHeight node + GAP_Y) ?s1"
          using Some False by (simp add: layoutNode_inner emptyMaps_def)
        show ?thesis
          unfolding l r
          apply (subst a)
          apply (subst a [of _ _ _ _ ?s1])
          apply (simp only: option.map_comp)
          apply (rule arg_cong [where f = "\<lambda>f. map_option f _"])
          apply (simp add: fun_eq_iff mapsAdd_assoc)
          done
      qed
    qed
  qed
qed


lemma layoutChildren_mono:
  assumes "\<And>i x y st r. rec i x y st = Some r \<Longrightarrow> rec' i x y st = Some r"
  shows "layoutChildren rec cs cx cy t st = Some r \<Longrightarrow> layoutChildren rec' cs cx cy t st = Some r"
proof (induction cs arbitrary: cy t st)
  case Nil
  then show ?case by simp
next
  case (Cons c cs)
  from Cons.prems obtain h1 st1 where
    1: "rec (node_id c) cx cy st = Some (h1, st1)" and
    2: "layoutChildren rec cs cx (cy + (h1 + GAP_Y)) (t + (h1 + GAP_Y)) st1 = Some r"
    by (auto split: option.splits)
  show ?case
    using assms [OF 1] Cons.IH [OF 2] by simp
qed

lemma layoutNode_Suc:
  "layoutNode d ns cm i x y st = Some r \<Longrightarrow> layoutNode (Suc d) ns cm i x y st = Some r"
proof (induction d arbitrary: i x y st r)
  case 0
  then show ?case by simp
next
  case (Suc d)
  show ?case
  proof (cases "find (\<lambda>n. node_id n = i) ns")
    case None
    then show ?thesis using Suc.prems by (simp add: layoutNode_missing)
  next
    case (Some node)
    show ?thesis
    proof (cases "truthyBool (collapsed node) \<or> childrenOf cm i = []")
      case True
      then show ?thesis using Some Suc.prems by (simp add: layoutNode_leaf)
    next
      case False
      let ?s1 = "((fst st)(i \<mapsto> \<lparr>pos_x = x, pos_y = y\<rparr>), (snd st)(i \<mapsto> getNodeHeight node))"
      have "layoutChildren (layoutNode d ns cm) (childrenOf cm i) (x + INDENT_X)
              (y + getNodeHeight node + GAP_Y) (getNodeHeight node + GAP_Y) ?s1 = Some r"
        using Some False Suc.prems by (simp add: layoutNode_inner)
      then have "layoutChildren (layoutNode (Suc d) ns cm) (childrenOf cm i) (x + INDENT_X)
              (y + getNodeHeight node + GAP_Y) (getNodeHeight node + GAP_Y) ?s1 = Some r"
        by (rule layoutChildren_mono [rotated]) (rule Suc.IH)
      then show ?thesis
        using Some False by (simp add: layoutNode_inner)
    qed
  qed
qed

lemma layoutNode_mono:
  "d \<le> d' \<Longrightarrow> layoutNode d ns cm i x y st = Some r \<Longrightarrow> layoutNode d' ns cm i x y st = Some r"
  by (induction d' rule: nat_induct_at_least) (auto intro: layoutNode_Suc)

lemma layoutChildren_shape:
  assumes "\<And>i x y x' y' st st'. sameShape st st' \<Longrightarrow> rel_option sameResult (rec i x y st) (rec i x' y' st')"
  shows "sameShape st st' \<Longrightarrow>
     rel_option sameResult (layoutChildren rec cs cx cy t st) (layoutChildren rec cs cx' cy' t st')"
proof (induction cs arbitrary: cy cy' t st st')
  case Nil
  then show ?case by (simp add: sameResult_def)
next
  case (Cons c cs)
  have r: "rel_option sameResult (rec (node_id c) cx cy st) (rec (node_id c) cx' cy' st')"
    by (rule assms [OF Cons.prems])
  show ?case
  proof (cases "rec (node_id c) cx cy st")
    case None
    then show ?thesis using r by (cases "rec (node_id c) cx' cy' st'") simp_all
  next
    case (Some a)
    then obtain b where b: "rec (node_id c) cx' cy' st' = Some b" and ab: "sameResult a b"
      using r by (cases "rec (node_id c) cx' cy' st'") simp_all
    obtain h1 s1 where a: "a = (h1, s1)" by (cases a)
    obtain h2 s2 where b2: "b = (h2, s2)" by (cases b)
    have h: "h2 = h1" and s: "sameShape s1 s2"
      using ab a b2 by (simp_all add: sameResult_def)
    show ?thesis
      using Some b a b2 h Cons.IH [OF s] by simp
  qed
qed

lemma layoutNode_shape:
  "sameShape st st' \<Longrightarrow>
     rel_option sameResult (layoutNode d ns cm i x y st) (layoutNode d ns cm i x' y' st')"
proof (induction d arbitrary: i x y x' y' st st')
  case 0
  then show ?case by simp
next
  case (Suc d)
  show ?case
  proof (cases "find (\<lambda>n. node_id n = i) ns")
    case None
    then show ?thesis using Suc.prems by (simp add: layoutNode_missing sameResult_def)
  next
    case (Some node)
    let ?s1 = "((fst st)(i \<mapsto> \<lparr>pos_x = x, pos_y = y\<rparr>), (snd st)(i \<mapsto> getNodeHeight node))"
    let ?s2 = "((fst st')(i \<mapsto> \<lparr>pos_x = x', pos_y = y'\<rparr>), (snd st')(i \<mapsto> getNodeHeight node))"
    have s: "sameShape ?s1 ?s2"
      using Suc.prems by (simp add: sameShape_def)
    show ?thesis
    proof (cases "truthyBool (collapsed node) \<or> childrenOf cm i = []")
      case True
      then show ?thesis using Some s by (simp add: layoutNode_leaf sameResult_def)
    next
      case False
      have "rel_option sameResult
          (layoutChildren (layoutNode d ns cm) (childrenOf cm i) (x + INDENT_X)
              (y + getNodeHeight node + GAP_Y) (getNodeHeight node + GAP_Y) ?s1)
          (layoutChildren (layoutNode d ns cm) (childrenOf cm i) (x' + INDENT_X)
              (y' + getNodeHeight node + GAP_Y) (getNodeHeight node + GAP_Y) ?s2)"
        by (rule layoutChildren_shape [OF Suc.IH s])
      then show ?thesis
        using Some False by (simp add: layoutNode_inner)
    qed
  qed
qed

lemma sameShape_refl [simp]: "sameShape st st"
  by (simp add: sameShape_def)

lemma layoutNode_footprint:
  "map_option fst (layoutNode d ns (buildChildrenMap ns) i x y st) = subtreeFootprint d ns i"
proof -
  let ?cm = "buildChildrenMap ns"
  have 1: "layoutNode d ns ?cm i x y st
      = map_option (\<lambda>(h, w). (h, mapsAdd st w)) (layoutNode d ns ?cm i x y emptyMaps)"
    using layoutNode_framed [of d ns ?cm] unfolding framed_def by blast
  have 2: "rel_option sameResult (layoutNode d ns ?cm i x y emptyMaps)
      (layoutNode d ns ?cm i 0 0 emptyMaps)"
    by (rule layoutNode_shape) simp
  have 3: "map_option fst (layoutNode d ns ?cm i x y emptyMaps)
      = map_option fst (layoutNode d ns ?cm i 0 0 emptyMaps)"
    using 2
    by (cases "layoutNode d ns ?cm i x y emptyMaps"; cases "layoutNode d ns ?cm i 0 0 emptyMaps")
       (simp_all add: sameResult_def)
  show ?thesis
    unfolding subtreeFootprint_def emptyMaps_def [symmetric] 3 [symmetric]
    by (subst 1) (simp add: option.map_comp comp_def case_prod_unfold)
qed

lemma subtreeFootprint_Suc:
  "subtreeFootprint d ns i = Some v \<Longrightarrow> subtreeFootprint (Suc d) ns i = Some v"
  unfolding subtreeFootprint_def
  by (auto dest: layoutNode_Suc)

lemma layoutChildren_total:
  assumes "layoutChildren rec cs cx cy t st = Some (h, st')"
    and "\<And>c x y s r. c \<in> set cs \<Longrightarrow> rec (node_id c) x y s = Some r \<Longrightarrow> fp (node_id c) = Some (fst r)"
  shows "(\<forall>c\<in>set cs. fp (node_id c) \<noteq> None)
     \<and> h = t + (\<Sum>c\<leftarrow>cs. the (fp (node_id c)) + GAP_Y)"
  using assms
proof (induction cs arbitrary: cy t st)
  case Nil
  then show ?case by simp
next
  case (Cons c cs)
  from Cons.prems(1) obtain h1 st1 where
    1: "rec (node_id c) cx cy st = Some (h1, st1)" and
    2: "layoutChildren rec cs cx (cy + (h1 + GAP_Y)) (t + (h1 + GAP_Y)) st1 = Some (h, st')"
    by (auto split: option.splits)
  have f: "fp (node_id c) = Some h1"
    using Cons.prems(2) [OF _ 1] by simp
  have ih: "(\<forall>c\<in>set cs. fp (node_id c) \<noteq> None)
     \<and> h = (t + (h1 + GAP_Y)) + (\<Sum>c\<leftarrow>cs. the (fp (node_id c)) + GAP_Y)"
    by (rule Cons.IH [OF 2]) (rule Cons.prems(2), simp_all)
  show ?case
    using f ih by simp
qed

text \<open>
  C1, as stated, fails on every expanded node without children: \<open>layoutNode\<close>
  returns its bare height, where the claim adds the gap to it. In \<open>exTree\<close> the leaf
  \<open>b\<close> is expanded and 120 high; its footprint is 120, not 160.
\<close>

theorem C1_expanded_leaf_counterexample:
  "find (\<lambda>n. node_id n = ''b'') exTree = Some (mkNode ''b'' (Some ''a'') Subchapter False)
   \<and> \<not> truthyBool (collapsed (mkNode ''b'' (Some ''a'') Subchapter False))
   \<and> subtreeFootprint 3 exTree ''b'' = Some 120
   \<and> getNodeHeight (mkNode ''b'' (Some ''a'') Subchapter False) + GAP_Y
       + (\<Sum>c\<leftarrow>childrenOf (buildChildrenMap exTree) ''b''.
            the (subtreeFootprint 3 exTree (node_id c)) + GAP_Y) = 160"
  by code_simp

text \<open>
  C1, amended: whenever a layout pass returns a footprint for a node of the node
  set, that footprint is the node's own height when the node is collapsed or has no
  children, and its own height plus the gap plus the sum of (child footprint + gap)
  over its direct children when it is expanded and has at least one child; every
  child then has a footprint. The footprint of the call \<open>layoutNode\<close> makes at any
  position and on any maps is \<open>subtreeFootprint\<close> (\<open>layoutNode_footprint\<close>).
\<close>

theorem C1_footprint:
  assumes "subtreeFootprint d nodes nodeId = Some h"
    and "find (\<lambda>n. node_id n = nodeId) nodes = Some node"
  shows "(truthyBool (collapsed node) \<or> childrenOf (buildChildrenMap nodes) nodeId = []
            \<longrightarrow> h = getNodeHeight node)
       \<and> (\<not> truthyBool (collapsed node) \<and> childrenOf (buildChildrenMap nodes) nodeId \<noteq> []
            \<longrightarrow> (\<forall>c\<in>set (childrenOf (buildChildrenMap nodes) nodeId).
                    subtreeFootprint d nodes (node_id c) \<noteq> None)
               \<and> h = getNodeHeight node + GAP_Y
                     + (\<Sum>c\<leftarrow>childrenOf (buildChildrenMap nodes) nodeId.
                          the (subtreeFootprint d nodes (node_id c)) + GAP_Y))"
proof (cases d)
  case 0
  then show ?thesis using assms by (simp add: subtreeFootprint_def)
next
  case (Suc d0)
  let ?cm = "buildChildrenMap nodes"
  obtain st' where run: "layoutNode d nodes ?cm nodeId 0 0 emptyMaps = Some (h, st')"
    using assms(1) by (auto simp: subtreeFootprint_def emptyMaps_def)
  show ?thesis
  proof (cases "truthyBool (collapsed node) \<or> childrenOf ?cm nodeId = []")
    case True
    then have "h = getNodeHeight node"
      using assms(2) run Suc by (simp add: layoutNode_leaf)
    then show ?thesis
      using True by blast
  next
    case False
    let ?s1 = "((fst emptyMaps)(nodeId \<mapsto> \<lparr>pos_x = 0, pos_y = 0\<rparr>),
                (snd emptyMaps)(nodeId \<mapsto> getNodeHeight node))"
    have l: "layoutChildren (layoutNode d0 nodes ?cm) (childrenOf ?cm nodeId) (0 + INDENT_X)
         (0 + getNodeHeight node + GAP_Y) (getNodeHeight node + GAP_Y) ?s1 = Some (h, st')"
      using assms(2) run Suc False by (simp add: layoutNode_inner)
    have fp: "\<And>c x y s r. layoutNode d0 nodes ?cm (node_id c) x y s = Some r
        \<Longrightarrow> subtreeFootprint d nodes (node_id c) = Some (fst r)"
    proof -
      fix c x y s r
      assume "layoutNode d0 nodes ?cm (node_id c) x y s = Some r"
      then have "subtreeFootprint d0 nodes (node_id c) = Some (fst r)"
        using layoutNode_footprint [of d0 nodes "node_id c" x y s] by simp
      then show "subtreeFootprint d nodes (node_id c) = Some (fst r)"
        unfolding Suc by (rule subtreeFootprint_Suc)
    qed
    have "(\<forall>c\<in>set (childrenOf ?cm nodeId). subtreeFootprint d nodes (node_id c) \<noteq> None)
       \<and> h = getNodeHeight node + GAP_Y
            + (\<Sum>c\<leftarrow>childrenOf ?cm nodeId. the (subtreeFootprint d nodes (node_id c)) + GAP_Y)"
      by (rule layoutChildren_total [OF l]) (rule fp)
    then show ?thesis
      using False by blast
  qed
qed

theorem C1_footprint_witness:
  "subtreeFootprint 3 exTree ''r'' = Some 580
   \<and> find (\<lambda>n. node_id n = ''r'') exTree = Some (mkNode ''r'' None Root False)
   \<and> \<not> truthyBool (collapsed (mkNode ''r'' None Root False))
   \<and> childrenOf (buildChildrenMap exTree) ''r'' = [mkNode ''a'' (Some ''r'') Chapter False]
   \<and> subtreeFootprint 3 exTree ''a'' = Some 320
   \<and> 580 = getNodeHeight (mkNode ''r'' None Root False) + GAP_Y
       + (\<Sum>c\<leftarrow>childrenOf (buildChildrenMap exTree) ''r''.
            the (subtreeFootprint 3 exTree (node_id c)) + GAP_Y)"
proof -
  have 1: "subtreeFootprint 3 exTree ''r'' = Some 580"
    by code_simp
  have 2: "find (\<lambda>n. node_id n = ''r'') exTree = Some (mkNode ''r'' None Root False)"
    by code_simp
  have 3: "\<not> truthyBool (collapsed (mkNode ''r'' None Root False))"
    by code_simp
  have 4: "childrenOf (buildChildrenMap exTree) ''r'' = [mkNode ''a'' (Some ''r'') Chapter False]"
    by code_simp
  have 5: "subtreeFootprint 3 exTree ''a'' = Some 320"
    by code_simp
  show ?thesis
    using C1_footprint [OF 1 2] 1 2 3 4 5 by simp
qed

lemma applyLayout_fields [simp]:
  "node_id (applyLayout st n) = node_id n"
  "parentId (applyLayout st n) = parentId n"
  "title (applyLayout st n) = title n"
  "level (applyLayout st n) = level n"
  "nodeType (applyLayout st n) = nodeType n"
  "collapsed (applyLayout st n) = collapsed n"
  "contentMinimized (applyLayout st n) = contentMinimized n"
  "isLoading (applyLayout st n) = isLoading n"
  "data (applyLayout st n) = data n"
  by (simp_all add: applyLayout_def split: option.splits)

lemma applyLayout_frame:
  "applyLayout st n = n\<lparr>position := position (applyLayout st n), height := height (applyLayout st n)\<rparr>"
  by (simp add: applyLayout_def split: option.splits)

lemma applyLayout_unvisited:
  "node_id n \<notin> dom (fst st) \<Longrightarrow> applyLayout st n = n"
  by (auto simp: applyLayout_def split: option.splits)

section \<open>Visibility resolver: what the queue reaches\<close>

lemma reach_empty [simp]: "reach ns {} u = False"
proof
  assume "reach ns {} u"
  then show False by (induction rule: reach.induct) simp_all
qed simp

lemma reach_insert_closed:
  assumes "truthyBool (collapsed u)"
  shows "{v. reach ns (insert u Q) v} = insert u {v. reach ns Q v}"
proof (intro set_eqI iffI)
  fix v
  assume "v \<in> {v. reach ns (insert u Q) v}"
  then have "reach ns (insert u Q) v" by simp
  then show "v \<in> insert u {v. reach ns Q v}"
  proof (induction rule: reach.induct)
    case (start w)
    then show ?case by (auto intro: reach.start)
  next
    case (step w c)
    then show ?case using assms by (auto intro: reach.step)
  qed
next
  fix v
  assume "v \<in> insert u {v. reach ns Q v}"
  then consider "v = u" | "reach ns Q v" by auto
  then show "v \<in> {v. reach ns (insert u Q) v}"
  proof cases
    case 1
    then show ?thesis by (simp add: reach.start)
  next
    case 2
    then have "reach ns (insert u Q) v"
      by (induction rule: reach.induct) (auto intro: reach.start reach.step)
    then show ?thesis by simp
  qed
qed

lemma reach_insert_open:
  assumes "\<not> truthyBool (collapsed u)"
  shows "{v. reach ns (insert u Q) v}
     = insert u {v. reach ns (Q \<union> set (filter (\<lambda>n. parentId n = Some (node_id u)) ns)) v}"
    (is "?L = insert u ?R")
proof (intro set_eqI iffI)
  fix v
  assume "v \<in> ?L"
  then have "reach ns (insert u Q) v" by simp
  then show "v \<in> insert u ?R"
  proof (induction rule: reach.induct)
    case (start w)
    then show ?case by (auto intro: reach.start)
  next
    case (step w c)
    show ?case
    proof (cases "w = u")
      case True
      then have "c \<in> Q \<union> set (filter (\<lambda>n. parentId n = Some (node_id u)) ns)"
        using step by simp
      then show ?thesis by (simp add: reach.start)
    next
      case False
      then have "reach ns (Q \<union> set (filter (\<lambda>n. parentId n = Some (node_id u)) ns)) w"
        using step by simp
      then have "reach ns (Q \<union> set (filter (\<lambda>n. parentId n = Some (node_id u)) ns)) c"
        using step by (auto intro: reach.step)
      then show ?thesis by simp
    qed
  qed
next
  fix v
  assume "v \<in> insert u ?R"
  then consider "v = u" | "reach ns (Q \<union> set (filter (\<lambda>n. parentId n = Some (node_id u)) ns)) v"
    by auto
  then show "v \<in> ?L"
  proof cases
    case 1
    then show ?thesis by (simp add: reach.start)
  next
    case 2
    then have "reach ns (insert u Q) v"
    proof (induction rule: reach.induct)
      case (start w)
      then consider "w \<in> Q" | "w \<in> set ns" "parentId w = Some (node_id u)" by auto
      then show ?case
      proof cases
        case 1
        then show ?thesis by (simp add: reach.start)
      next
        case 2
        have "reach ns (insert u Q) u" by (simp add: reach.start)
        then show ?thesis using assms 2 by (rule reach.step)
      qed
    next
      case (step w c)
      then show ?case by (auto intro: reach.step)
    qed
    then show ?thesis by simp
  qed
qed

lemma visitQueue_reach:
  "visitQueue k ns q V = Some V' \<Longrightarrow> node_id ` set q \<subseteq> V \<Longrightarrow>
     V' = V \<union> node_id ` {v. reach ns (set q) v}"
proof (induction k ns q V rule: visitQueue.induct)
  case (1 k ns V)
  then show ?case by simp
next
  case (2 ns current queue V)
  then show ?case by simp
next
  case (3 k ns current queue V)
  let ?ch = "filter (\<lambda>n. parentId n = Some (node_id current)) ns"
  have cur: "node_id current \<in> V" using "3.prems" by simp
  show ?case
  proof (cases "truthyBool (collapsed current)")
    case True
    then have "visitQueue k ns queue V = Some V'"
      using "3.prems" by simp
    then have "V' = V \<union> node_id ` {v. reach ns (set queue) v}"
      using "3.IH"(2) True "3.prems" by simp
    then show ?thesis
      using cur by (simp add: reach_insert_closed [OF True]) blast
  next
    case False
    then have "visitQueue k ns (queue @ ?ch) (V \<union> set (map node_id ?ch)) = Some V'"
      using "3.prems" cur by simp
    then have "V' = (V \<union> set (map node_id ?ch)) \<union> node_id ` {v. reach ns (set (queue @ ?ch)) v}"
      using "3.IH"(1) False cur "3.prems" by auto
    moreover have "node_id ` set ?ch \<subseteq> node_id ` {v. reach ns (set queue \<union> set ?ch) v}"
      by (auto intro!: imageI reach.start)
    ultimately show ?thesis
      using cur by (simp add: reach_insert_open [OF False]) blast
  qed
qed

lemma visibleSetOf_reach:
  assumes "visibleSetOf k ns = Some V"
  shows "V = node_id ` {v. underOpenAncestors ns v}"
proof -
  have "V = set (map node_id (filter isRoot ns)) \<union> node_id ` {v. reach ns (set (filter isRoot ns)) v}"
    using assms unfolding visibleSetOf_def by (rule visitQueue_reach) simp
  moreover have "set (map node_id (filter isRoot ns)) \<subseteq> node_id ` {v. reach ns (set (filter isRoot ns)) v}"
    by (auto intro!: imageI reach.start)
  ultimately show ?thesis
    unfolding underOpenAncestors_def by blast
qed

section \<open>Node lists with the same skeletons\<close>

lemma skeleton_fields:
  assumes "skeleton u' = skeleton u"
  shows "node_id u' = node_id u" "parentId u' = parentId u" "nodeType u' = nodeType u"
    "truthyBool (collapsed u') = truthyBool (collapsed u)" "getNodeHeight u' = getNodeHeight u"
    "isRoot u' = isRoot u"
  using assms by (simp_all add: skeleton_def isRoot_def)

lemma map_skeleton_ids:
  assumes "map skeleton ns' = map skeleton ns"
  shows "map node_id ns' = map node_id ns"
proof -
  have "map (fst \<circ> skeleton) ns' = map (fst \<circ> skeleton) ns"
    using assms by (metis map_map)
  moreover have "fst \<circ> skeleton = node_id"
    by (simp add: fun_eq_iff skeleton_def)
  ultimately show ?thesis by simp
qed

lemma map_skeleton_filter:
  assumes "map skeleton ns' = map skeleton ns"
    and "\<And>u. P u = Q (skeleton u)"
  shows "map skeleton (filter P ns') = map skeleton (filter P ns)"
proof -
  have p: "P = Q \<circ> skeleton"
    by (simp add: fun_eq_iff assms(2))
  have "\<And>xs. map skeleton (filter P xs) = filter Q (map skeleton xs)"
    unfolding p by (simp add: filter_map)
  then show ?thesis using assms(1) by simp
qed

lemma map_skeleton_find:
  assumes "map skeleton ns' = map skeleton ns"
    and "\<And>u. P u = Q (skeleton u)"
  shows "map_option skeleton (find P ns') = map_option skeleton (find P ns)"
  using assms(1)
proof (induction ns arbitrary: ns')
  case Nil
  then show ?case by simp
next
  case (Cons u ns)
  then obtain u' ns0 where n: "ns' = u' # ns0" and u: "skeleton u' = skeleton u"
    and r: "map skeleton ns0 = map skeleton ns"
    by (cases ns') auto
  have "P u' = P u" using u by (simp add: assms(2))
  then show ?case
    using n u Cons.IH [OF r] by simp
qed

lemma map_skeleton_children:
  assumes "map skeleton ns' = map skeleton ns"
  shows "map skeleton (childrenOf (buildChildrenMap ns') i)
       = map skeleton (childrenOf (buildChildrenMap ns) i)"
  unfolding childrenOf_build
  by (rule map_skeleton_filter [OF assms, of _ "\<lambda>s. truthyString (fst (snd s)) \<and> fst (snd s) = Some i"])
     (simp add: skeleton_def)

lemma map_skeleton_roots:
  assumes "map skeleton ns' = map skeleton ns"
  shows "map skeleton (filter isRoot ns') = map skeleton (filter isRoot ns)"
  by (rule map_skeleton_filter [OF assms, of _ "\<lambda>s. fst (snd (snd s)) = Root \<or> \<not> truthyString (fst (snd s))"])
     (simp add: skeleton_def isRoot_def)

lemma layoutChildren_ids:
  "map node_id cs' = map node_id cs \<Longrightarrow>
     layoutChildren rec cs' cx cy t st = layoutChildren rec cs cx cy t st"
proof (induction cs arbitrary: cs' cy t st)
  case Nil
  then show ?case by simp
next
  case (Cons c cs)
  then obtain c' cs0 where n: "cs' = c' # cs0" and c: "node_id c' = node_id c"
    and r: "map node_id cs0 = map node_id cs"
    by (cases cs') auto
  show ?case
    unfolding n using c Cons.IH [OF r] by (simp split: option.splits)
qed

lemma layoutNode_skeleton:
  assumes "map skeleton ns' = map skeleton ns"
  shows "layoutNode d ns' (buildChildrenMap ns') i x y st
       = layoutNode d ns (buildChildrenMap ns) i x y st"
proof (induction d arbitrary: i x y st)
  case 0
  then show ?case by simp
next
  case (Suc d)
  let ?cm = "buildChildrenMap ns" and ?cm' = "buildChildrenMap ns'"
  have f: "map_option skeleton (find (\<lambda>n. node_id n = i) ns')
      = map_option skeleton (find (\<lambda>n. node_id n = i) ns)"
    by (rule map_skeleton_find [OF assms, of _ "\<lambda>s. fst s = i"]) (simp add: skeleton_def)
  have ch: "map node_id (childrenOf ?cm' i) = map node_id (childrenOf ?cm i)"
    by (rule map_skeleton_ids [OF map_skeleton_children [OF assms]])
  have rec: "layoutNode d ns' ?cm' = layoutNode d ns ?cm"
    by (intro ext) (rule Suc.IH)
  show ?case
  proof (cases "find (\<lambda>n. node_id n = i) ns")
    case None
    then have "find (\<lambda>n. node_id n = i) ns' = None" using f by simp
    then show ?thesis using None by (simp add: layoutNode_missing)
  next
    case (Some node)
    then obtain node' where n': "find (\<lambda>n. node_id n = i) ns' = Some node'"
      and s: "skeleton node' = skeleton node"
      using f by (cases "find (\<lambda>n. node_id n = i) ns'") auto
    note sf = skeleton_fields [OF s]
    have e: "childrenOf ?cm' i = [] \<longleftrightarrow> childrenOf ?cm i = []"
      using ch by (metis map_is_Nil_conv)
    show ?thesis
    proof (cases "truthyBool (collapsed node) \<or> childrenOf ?cm i = []")
      case True
      then have "truthyBool (collapsed node') \<or> childrenOf ?cm' i = []"
        using sf e by simp
      then show ?thesis
        using True Some n' sf by (simp add: layoutNode_leaf)
    next
      case False
      then have "\<not> (truthyBool (collapsed node') \<or> childrenOf ?cm' i = [])"
        using sf e by simp
      then show ?thesis
        using False Some n' sf rec layoutChildren_ids [OF ch]
        by (simp add: layoutNode_inner)
    qed
  qed
qed

lemma visitQueue_skeleton:
  "map skeleton ns' = map skeleton ns \<Longrightarrow> map skeleton q' = map skeleton q \<Longrightarrow>
     visitQueue k ns' q' V = visitQueue k ns q V"
proof (induction k ns q V arbitrary: q' rule: visitQueue.induct)
  case (1 k ns V)
  then show ?case by simp
next
  case (2 ns current queue V)
  then show ?case by (cases q') auto
next
  case (3 k ns current queue V)
  from "3.prems"(2) obtain current' queue' where q': "q' = current' # queue'"
    and c: "skeleton current' = skeleton current"
    and r: "map skeleton queue' = map skeleton queue"
    by (cases q') auto
  note sf = skeleton_fields [OF c]
  let ?ch = "filter (\<lambda>n. parentId n = Some (node_id current)) ns"
  let ?ch' = "filter (\<lambda>n. parentId n = Some (node_id current')) ns'"
  have ch: "map skeleton ?ch' = map skeleton ?ch"
    unfolding sf(1)
    by (rule map_skeleton_filter [OF "3.prems"(1), of _ "\<lambda>s. fst (snd s) = Some (node_id current)"])
       (simp add: skeleton_def)
  have ids: "map node_id ?ch' = map node_id ?ch"
    by (rule map_skeleton_ids [OF ch])
  have app: "map skeleton (queue' @ ?ch') = map skeleton (queue @ ?ch)"
    using r ch by simp
  show ?case
  proof (cases "node_id current \<in> V \<and> \<not> truthyBool (collapsed current)")
    case True
    have "visitQueue k ns' (queue' @ ?ch') (V \<union> set (map node_id ?ch))
        = visitQueue k ns (queue @ ?ch) (V \<union> set (map node_id ?ch))"
      using True by (intro "3.IH"(1) "3.prems"(1) app) simp
    then show ?thesis
      unfolding q' using True sf ids by simp
  next
    case False
    have "visitQueue k ns' queue' V = visitQueue k ns queue V"
      using False by (intro "3.IH"(2) "3.prems"(1) r) simp
    then show ?thesis
      unfolding q' using False sf by auto
  qed
qed

lemma visibleSetOf_skeleton:
  assumes "map skeleton ns' = map skeleton ns"
  shows "visibleSetOf k ns' = visibleSetOf k ns"
proof -
  have r: "map skeleton (filter isRoot ns') = map skeleton (filter isRoot ns)"
    by (rule map_skeleton_roots [OF assms])
  have "map node_id (filter isRoot ns') = map node_id (filter isRoot ns)"
    by (rule map_skeleton_ids [OF r])
  then show ?thesis
    unfolding visibleSetOf_def using visitQueue_skeleton [OF assms r] by simp
qed

lemma layoutRoots_skeleton:
  assumes "map skeleton ns' = map skeleton ns"
  shows "map node_id rs' = map node_id rs \<Longrightarrow> map position rs' = map position rs \<Longrightarrow>
    layoutRoots d ns' (buildChildrenMap ns') rs' st = layoutRoots d ns (buildChildrenMap ns) rs st"
proof (induction rs arbitrary: rs' st)
  case Nil
  then show ?case by simp
next
  case (Cons r rs)
  then obtain r' rs0 where n: "rs' = r' # rs0" and i: "node_id r' = node_id r"
    and p: "position r' = position r"
    and r1: "map node_id rs0 = map node_id rs" and r2: "map position rs0 = map position rs"
    by (cases rs') auto
  show ?case
    unfolding n using i p Cons.IH [OF r1 r2] layoutNode_skeleton [OF assms]
    by (simp split: option.splits)
qed

section \<open>Adding a child\<close>

lemma getNodeHeight_applyLayout [simp]: "getNodeHeight (applyLayout st u) = getNodeHeight u"
  by (simp add: getNodeHeight_def hasLearningPoints_def hasSummary_def)

lemma skeleton_applyLayout [simp]: "skeleton (applyLayout st u) = skeleton u"
  by (simp add: skeleton_def)

lemma computeSmartLayout_Some:
  assumes "computeSmartLayout d ns = Some ns'"
  obtains st where "layoutMaps d ns = Some st" and "ns' = map (applyLayout st) ns"
  using assms by (auto simp: computeSmartLayout_def split: option.splits)

lemma computeSmartLayout_skeleton:
  assumes "computeSmartLayout d ns = Some ns'"
  shows "map skeleton ns' = map skeleton ns"
  using assms by (auto elim!: computeSmartLayout_Some)

lemma toggleCollapsed_fields [simp]:
  "node_id (toggleCollapsed i n) = node_id n"
  "parentId (toggleCollapsed i n) = parentId n"
  "title (toggleCollapsed i n) = title n"
  "position (toggleCollapsed i n) = position n"
  "level (toggleCollapsed i n) = level n"
  "nodeType (toggleCollapsed i n) = nodeType n"
  "contentMinimized (toggleCollapsed i n) = contentMinimized n"
  "height (toggleCollapsed i n) = height n"
  "isLoading (toggleCollapsed i n) = isLoading n"
  "data (toggleCollapsed i n) = data n"
  by (simp_all add: toggleCollapsed_def)


section \<open>Deleting a subtree\<close>

lemma strictDescendant_mono:
  assumes "strictDescendant ns a m" and "set ns \<subseteq> set ns'"
  shows "strictDescendant ns' a m"
  using assms by (induction rule: strictDescendant.induct) (auto intro: strictDescendant.intros)

lemma strictDescendant_trans:
  assumes "strictDescendant ns b m" and "strictDescendant ns a b"
  shows "strictDescendant ns a m"
  using assms by (induction rule: strictDescendant.induct) (auto intro: strictDescendant.intros)

lemma filter_filter_ids:
  "filter (\<lambda>u. node_id u \<notin> Y) (filter (\<lambda>u. node_id u \<notin> X) L)
     = filter (\<lambda>u. node_id u \<notin> X \<union> Y) L"
  by (induction L) auto

lemma deleteChildren_removes:
  assumes "\<And>c rem rem'. c \<in> set cs \<Longrightarrow> set rem \<subseteq> set L \<Longrightarrow> rec (node_id c) rem = Some rem' \<Longrightarrow>
      \<exists>X. rem' = filter (\<lambda>u. node_id u \<notin> X) rem \<and> node_id c \<in> X
         \<and> (\<forall>m\<in>X. m = a \<or> strictDescendant L a m)"
  shows "deleteChildren rec cs (filter (\<lambda>u. node_id u \<notin> X0) L) = Some R \<Longrightarrow>
     \<exists>X. R = filter (\<lambda>u. node_id u \<notin> X) L \<and> X0 \<union> node_id ` set cs \<subseteq> X
        \<and> (\<forall>m\<in>X. m \<in> X0 \<or> m = a \<or> strictDescendant L a m)"
  using assms
proof (induction cs arbitrary: X0)
  case Nil
  then show ?case by auto
next
  case (Cons c cs)
  let ?rem = "filter (\<lambda>u. node_id u \<notin> X0) L"
  from Cons.prems(1) obtain rem' where
    1: "rec (node_id c) ?rem = Some rem'" and 2: "deleteChildren rec cs rem' = Some R"
    by (auto split: option.splits)
  obtain Xc where xc: "rem' = filter (\<lambda>u. node_id u \<notin> Xc) ?rem" "node_id c \<in> Xc"
    "\<forall>m\<in>Xc. m = a \<or> strictDescendant L a m"
    using Cons.prems(2) [OF _ _ 1] by auto
  have r: "rem' = filter (\<lambda>u. node_id u \<notin> X0 \<union> Xc) L"
    using xc(1) by (simp add: filter_filter_ids)
  obtain X where x: "R = filter (\<lambda>u. node_id u \<notin> X) L" "(X0 \<union> Xc) \<union> node_id ` set cs \<subseteq> X"
    "\<forall>m\<in>X. m \<in> X0 \<union> Xc \<or> m = a \<or> strictDescendant L a m"
    using Cons.IH [OF 2 [unfolded r]] Cons.prems(2) by auto
  show ?case
    using x xc(2,3) by (intro exI [of _ X]) auto
qed

lemma deleteRecursive_removes:
  "deleteRecursive d a L = Some R \<Longrightarrow>
     \<exists>X. R = filter (\<lambda>u. node_id u \<notin> X) L \<and> a \<in> X
        \<and> (\<forall>m\<in>X. m = a \<or> strictDescendant L a m)"
proof (induction d arbitrary: a L R)
  case 0
  then show ?case by simp
next
  case (Suc d)
  let ?cs = "filter (\<lambda>n. parentId n = Some a) L"
  have run: "deleteChildren (deleteRecursive d) ?cs (filter (\<lambda>u. node_id u \<notin> {a}) L) = Some R"
    using Suc.prems by simp
  have "\<exists>X. R = filter (\<lambda>u. node_id u \<notin> X) L \<and> {a} \<union> node_id ` set ?cs \<subseteq> X
        \<and> (\<forall>m\<in>X. m \<in> {a} \<or> m = a \<or> strictDescendant L a m)"
  proof (rule deleteChildren_removes [OF _ run])
    fix c rem rem'
    assume c: "c \<in> set ?cs" and sub: "set rem \<subseteq> set L"
      and r: "deleteRecursive d (node_id c) rem = Some rem'"
    have ca: "strictDescendant L a (node_id c)"
      using c by (auto intro: strictDescendant.child)
    obtain X where x: "rem' = filter (\<lambda>u. node_id u \<notin> X) rem" "node_id c \<in> X"
      "\<forall>m\<in>X. m = node_id c \<or> strictDescendant rem (node_id c) m"
      using Suc.IH [OF r] by auto
    have "\<forall>m\<in>X. m = a \<or> strictDescendant L a m"
    proof
      fix m assume "m \<in> X"
      then consider "m = node_id c" | "strictDescendant rem (node_id c) m"
        using x(3) by auto
      then show "m = a \<or> strictDescendant L a m"
      proof cases
        case 1
        then show ?thesis using ca by simp
      next
        case 2
        then have "strictDescendant L (node_id c) m"
          using sub by (rule strictDescendant_mono)
        then show ?thesis using ca by (auto intro: strictDescendant_trans)
      qed
    qed
    then show "\<exists>X. rem' = filter (\<lambda>u. node_id u \<notin> X) rem \<and> node_id c \<in> X
         \<and> (\<forall>m\<in>X. m = a \<or> strictDescendant L a m)"
      using x(1,2) by auto
  qed
  then show ?case by auto
qed


lemma deleteRecursive_subset:
  assumes "deleteRecursive d a L = Some R"
  shows "set R \<subseteq> set L" and "a \<notin> node_id ` set R"
proof -
  obtain X where "R = filter (\<lambda>u. node_id u \<notin> X) L" "a \<in> X"
    using deleteRecursive_removes [OF assms] by auto
  then show "set R \<subseteq> set L" and "a \<notin> node_id ` set R" by auto
qed

lemma deleteChildren_orphans:
  assumes "\<And>(c::NodeData) rem rem'. rec (node_id c) rem = Some rem' \<Longrightarrow>
      set rem' \<subseteq> set rem \<and> node_id c \<notin> node_id ` set rem' \<and> pendingOrphans rem (node_id c) rem' []"
  shows "deleteChildren rec cs rem = Some R \<Longrightarrow> set rem \<subseteq> set L \<Longrightarrow> pendingOrphans L a rem cs \<Longrightarrow>
     set R \<subseteq> set rem \<and> pendingOrphans L a R []"
proof (induction cs arbitrary: rem)
  case Nil
  then show ?case by simp
next
  case (Cons c cs)
  from Cons.prems(1) obtain rem' where
    1: "rec (node_id c) rem = Some rem'" and 2: "deleteChildren rec cs rem' = Some R"
    by (auto split: option.splits)
  have a: "set rem' \<subseteq> set rem" "node_id c \<notin> node_id ` set rem'"
    "pendingOrphans rem (node_id c) rem' []"
    using assms [OF 1] by auto
  have p: "pendingOrphans L a rem' cs"
    unfolding pendingOrphans_def
  proof (intro ballI allI impI)
    fix u p
    assume u: "u \<in> set rem'" and pu: "parentId u = Some p"
      and pl: "p \<in> node_id ` set L \<or> p = a" and pr: "p \<notin> node_id ` set rem'"
    have "p \<notin> node_id ` set rem"
    proof
      assume "p \<in> node_id ` set rem"
      then have "u \<in> set []"
        using a(3) u pu pr unfolding pendingOrphans_def by blast
      then show False by simp
    qed
    then have "u \<in> set (c # cs)"
      using Cons.prems(3) u a(1) pu pl unfolding pendingOrphans_def by blast
    moreover have "u \<noteq> c"
      using a(2) u by auto
    ultimately show "u \<in> set cs" by simp
  qed
  have "set R \<subseteq> set rem' \<and> pendingOrphans L a R []"
    using Cons.IH [OF 2 _ p] a(1) Cons.prems(2) by auto
  then show ?case using a(1) by auto
qed

lemma deleteRecursive_orphans:
  "deleteRecursive d a L = Some R \<Longrightarrow> pendingOrphans L a R []"
proof (induction d arbitrary: a L R)
  case 0
  then show ?case by simp
next
  case (Suc d)
  let ?cs = "filter (\<lambda>n. parentId n = Some a) L"
  let ?rem = "filter (\<lambda>n. node_id n \<noteq> a) L"
  have run: "deleteChildren (deleteRecursive d) ?cs ?rem = Some R"
    using Suc.prems by simp
  have init: "pendingOrphans L a ?rem ?cs"
    unfolding pendingOrphans_def by auto
  have "set R \<subseteq> set ?rem \<and> pendingOrphans L a R []"
  proof (rule deleteChildren_orphans [OF _ run _ init])
    fix c :: NodeData and rem rem'
    assume r: "deleteRecursive d (node_id c) rem = Some rem'"
    show "set rem' \<subseteq> set rem \<and> node_id c \<notin> node_id ` set rem'
        \<and> pendingOrphans rem (node_id c) rem' []"
      using deleteRecursive_subset [OF r] Suc.IH [OF r] by simp
  qed simp
  then show ?case by simp
qed

lemma deleteRecursive_no_new_orphan:
  assumes "deleteRecursive d a L = Some R" and "u \<in> set R" and "orphan R u"
  shows "orphan L u"
proof -
  from assms(3) obtain "\<not> isRoot u" and np: "parentId u \<notin> set (map (\<lambda>n. Some (node_id n)) R)"
    by (simp add: orphan_def)
  then obtain p where p: "parentId u = Some p"
    by (cases "parentId u") (auto simp: isRoot_def truthyString_def)
  have pr: "p \<notin> node_id ` set R"
    using np p by auto
  have "pendingOrphans L a R []"
    by (rule deleteRecursive_orphans [OF assms(1)])
  then have "\<not> (p \<in> node_id ` set L \<or> p = a)"
    using assms(2) p pr unfolding pendingOrphans_def by fastforce
  then have "parentId u \<notin> set (map (\<lambda>n. Some (node_id n)) L)"
    using p by auto
  then show ?thesis
    using \<open>\<not> isRoot u\<close> by (simp add: orphan_def)
qed


lemma strictDescendant_id:
  "strictDescendant L a m \<Longrightarrow> m \<in> node_id ` set L"
  by (induction rule: strictDescendant.induct) auto

lemma deleteRecursive_descendants_gone:
  assumes "deleteRecursive d a L = Some R" and "strictDescendant L a m"
  shows "m \<notin> node_id ` set R"
proof -
  obtain X where x: "R = filter (\<lambda>u. node_id u \<notin> X) L" "a \<in> X"
    using deleteRecursive_removes [OF assms(1)] by auto
  have po: "pendingOrphans L a R []"
    by (rule deleteRecursive_orphans [OF assms(1)])
  have a: "a \<notin> node_id ` set R"
    by (rule deleteRecursive_subset [OF assms(1)])
  have gone: "node_id c \<notin> node_id ` set R"
    if c: "c \<in> set L" "parentId c = Some p" and p: "p \<notin> node_id ` set R"
      "p \<in> node_id ` set L \<or> p = a" for c p
  proof
    assume "node_id c \<in> node_id ` set R"
    then have "node_id c \<notin> X" using x(1) by auto
    then have "c \<in> set R" using x(1) c(1) by simp
    then have "c \<in> set []"
      using po c(2) p unfolding pendingOrphans_def by blast
    then show False by simp
  qed
  show ?thesis
    using assms(2)
  proof (induction rule: strictDescendant.induct)
    case (child c)
    then show ?case using gone [of c a] a by simp
  next
    case (below m c)
    then show ?case using gone [of c m] strictDescendant_id [of L a m] by simp
  qed
qed

lemma deleteRecursive_result:
  assumes "deleteRecursive d a L = Some R"
  shows "R = filter (\<lambda>u. node_id u \<noteq> a \<and> \<not> strictDescendant L a (node_id u)) L"
proof -
  obtain X where x: "R = filter (\<lambda>u. node_id u \<notin> X) L" "a \<in> X"
    "\<forall>m\<in>X. m = a \<or> strictDescendant L a m"
    using deleteRecursive_removes [OF assms] by auto
  have "(node_id u \<notin> X) = (node_id u \<noteq> a \<and> \<not> strictDescendant L a (node_id u))"
    if u: "u \<in> set L" for u
  proof
    assume n: "node_id u \<notin> X"
    then have "u \<in> set R" using x(1) u by simp
    then have "\<not> strictDescendant L a (node_id u)"
      using deleteRecursive_descendants_gone [OF assms] by blast
    then show "node_id u \<noteq> a \<and> \<not> strictDescendant L a (node_id u)"
      using n x(2) by auto
  next
    assume "node_id u \<noteq> a \<and> \<not> strictDescendant L a (node_id u)"
    then show "node_id u \<notin> X" using x(3) by auto
  qed
  then show ?thesis
    unfolding x(1) by (intro filter_cong) auto
qed

lemma deleteChildren_returns:
  assumes "\<And>c X. c \<in> set cs \<Longrightarrow> rec (node_id c) (filter (\<lambda>u. node_id u \<notin> X) L) \<noteq> None"
    and "\<And>(c::NodeData) rem rem'. rec (node_id c) rem = Some rem' \<Longrightarrow>
      \<exists>X. rem' = filter (\<lambda>u. node_id u \<notin> X) rem"
  shows "deleteChildren rec cs (filter (\<lambda>u. node_id u \<notin> X0) L) \<noteq> None"
  using assms(1)
proof (induction cs arbitrary: X0)
  case Nil
  then show ?case by simp
next
  case (Cons c cs)
  let ?rem = "filter (\<lambda>u. node_id u \<notin> X0) L"
  obtain rem' where 1: "rec (node_id c) ?rem = Some rem'"
    using Cons.prems [of c X0] by auto
  obtain Xc where "rem' = filter (\<lambda>u. node_id u \<notin> Xc) ?rem"
    using assms(2) [OF 1] by auto
  then have r: "rem' = filter (\<lambda>u. node_id u \<notin> X0 \<union> Xc) L"
    by (simp add: filter_filter_ids)
  have "deleteChildren rec cs rem' \<noteq> None"
    unfolding r by (rule Cons.IH) (rule Cons.prems, simp)
  then show ?case using 1 by simp
qed

lemma filter_same_length:
  assumes "length (filter P xs) = length xs"
  shows "\<forall>x\<in>set xs. P x"
proof (rule ccontr)
  assume "\<not> (\<forall>x\<in>set xs. P x)"
  then obtain x where "x \<in> set xs" "\<not> P x" by blast
  then have "length (filter P xs) < length xs" by (rule length_filter_less)
  then show False using assms by simp
qed

lemma deleteRecursive_returns_aux:
  "2 * length L + (if a \<in> node_id ` set L then 0 else 1) < d \<Longrightarrow> deleteRecursive d a L \<noteq> None"
proof (induction d arbitrary: a L)
  case 0
  then show ?case by simp
next
  case (Suc d)
  let ?cs = "filter (\<lambda>n. parentId n = Some a) L"
  let ?start = "filter (\<lambda>n. node_id n \<noteq> a) L"
  have "deleteChildren (deleteRecursive d) ?cs (filter (\<lambda>u. node_id u \<notin> {}) ?start) \<noteq> None"
  proof (rule deleteChildren_returns)
    fix c :: NodeData and rem rem'
    assume "deleteRecursive d (node_id c) rem = Some rem'"
    then show "\<exists>X. rem' = filter (\<lambda>u. node_id u \<notin> X) rem"
      using deleteRecursive_removes by blast
  next
    fix c X
    assume c: "c \<in> set ?cs"
    let ?rem = "filter (\<lambda>u. node_id u \<notin> X) ?start"
    have le: "length ?rem \<le> length ?start" "length ?start \<le> length L"
      by (rule length_filter_le)+
    have "2 * length ?rem + (if node_id c \<in> node_id ` set ?rem then 0 else 1) < d"
    proof (cases "length ?rem = length L")
      case True
      have e1: "length ?start = length L" and e2: "length ?rem = length ?start"
        using True le by linarith+
      have a: "\<forall>u\<in>set L. node_id u \<noteq> a"
        by (rule filter_same_length [OF e1])
      then have r0: "?start = L" by simp
      have "\<forall>u\<in>set ?start. node_id u \<notin> X"
        by (rule filter_same_length [OF e2])
      then have "\<forall>u\<in>set L. node_id u \<notin> X"
        unfolding r0 .
      then have r: "?rem = L"
        unfolding r0 by simp
      have "a \<notin> node_id ` set L"
        using a by auto
      moreover have "node_id c \<in> node_id ` set ?rem"
        unfolding r using c by auto
      ultimately show ?thesis using Suc.prems True by simp
    next
      case False
      then have "length ?rem < length L" using le by linarith
      moreover have "2 * length L < Suc d" using Suc.prems by (simp split: if_splits)
      ultimately have "2 * length ?rem + 1 < d" by linarith
      then show ?thesis by (simp split: if_splits)
    qed
    then show "deleteRecursive d (node_id c) ?rem \<noteq> None"
      by (rule Suc.IH)
  qed
  then show ?case by simp
qed

lemma deleteRecursive_returns:
  "2 * length L + 1 < d \<Longrightarrow> deleteRecursive d a L \<noteq> None"
  by (rule deleteRecursive_returns_aux) simp


lemma orphan_skeleton:
  assumes "map skeleton ns' = map skeleton ns" and "skeleton u' = skeleton u"
  shows "orphan ns' u' = orphan ns u"
proof -
  have "map Some (map node_id ns') = map Some (map node_id ns)"
    using map_skeleton_ids [OF assms(1)] by simp
  then have "map (\<lambda>n. Some (node_id n)) ns' = map (\<lambda>n. Some (node_id n)) ns"
    by (simp add: comp_def)
  then show ?thesis
    using skeleton_fields [OF assms(2)] by (simp add: orphan_def)
qed

lemma no_orphans_skeleton:
  assumes "map skeleton ns' = map skeleton ns" and "\<forall>u\<in>set ns. \<not> orphan ns u"
  shows "\<forall>u\<in>set ns'. \<not> orphan ns' u"
proof
  fix u' assume "u' \<in> set ns'"
  then have "skeleton u' \<in> set (map skeleton ns)"
    using assms(1) by (metis image_eqI set_map)
  then obtain u where "u \<in> set ns" "skeleton u' = skeleton u" by auto
  then show "\<not> orphan ns' u'"
    using orphan_skeleton [OF assms(1)] assms(2) by blast
qed

text \<open>
  C4: on a node set without orphans, given more call depth than twice the number of
  nodes, \<open>deleteRecursive\<close> returns; what remains is the node set without the node
  of that id and without every node whose id is a strict descendant of it, in the
  old order, and it has no orphan. The layout pass that \<open>handleDelete\<close> runs next,
  when it returns, keeps the ids and leaves no orphan either.
\<close>

theorem C4_delete_subtree:
  assumes "\<forall>u\<in>set nodes. \<not> orphan nodes u" and "2 * length nodes + 1 < d"
  shows "\<exists>remaining. deleteRecursive d nodeId nodes = Some remaining
     \<and> remaining
         = filter (\<lambda>u. node_id u \<noteq> nodeId \<and> \<not> strictDescendant nodes nodeId (node_id u)) nodes
     \<and> (\<forall>u\<in>set remaining. \<not> orphan remaining u)
     \<and> (\<forall>nodes'. handleDelete d nodeId nodes = Some nodes'
           \<longrightarrow> map node_id nodes' = map node_id remaining
               \<and> (\<forall>u\<in>set nodes'. \<not> orphan nodes' u))"
proof -
  obtain remaining where r: "deleteRecursive d nodeId nodes = Some remaining"
    using deleteRecursive_returns [OF assms(2), of nodeId] by auto
  have sub: "set remaining \<subseteq> set nodes"
    by (rule deleteRecursive_subset [OF r])
  have no: "\<forall>u\<in>set remaining. \<not> orphan remaining u"
    using deleteRecursive_no_new_orphan [OF r] assms(1) sub by blast
  have "map node_id nodes' = map node_id remaining \<and> (\<forall>u\<in>set nodes'. \<not> orphan nodes' u)"
    if h: "handleDelete d nodeId nodes = Some nodes'" for nodes'
  proof -
    have "computeSmartLayout d remaining = Some nodes'"
      using h r by (simp add: handleDelete_def)
    then have s: "map skeleton nodes' = map skeleton remaining"
      by (rule computeSmartLayout_skeleton)
    show ?thesis
      using map_skeleton_ids [OF s] no_orphans_skeleton [OF s no] by simp
  qed
  then show ?thesis
    using r deleteRecursive_result [OF r] no by blast
qed

theorem C4_delete_subtree_witness:
  "filter (orphan exTree) exTree = [] \<and> 2 * length exTree + 1 < (8::nat)
   \<and> deleteRecursive 8 ''a'' exTree = Some [mkNode ''r'' None Root False]
   \<and> map node_id (the (handleDelete 8 ''a'' exTree)) = [''r'']
   \<and> \<not> orphan (the (handleDelete 8 ''a'' exTree)) (hd (the (handleDelete 8 ''a'' exTree)))"
proof -
  have 0: "filter (orphan exTree) exTree = []"
    by code_simp
  then have 1: "\<forall>u\<in>set exTree. \<not> orphan exTree u"
    by (simp add: filter_empty_conv)
  have 2: "2 * length exTree + 1 < (8::nat)"
    by code_simp
  have 3: "deleteRecursive 8 ''a'' exTree = Some [mkNode ''r'' None Root False]"
    by code_simp
  have "handleDelete 8 ''a'' exTree \<noteq> None"
    by code_simp
  then obtain nodes' where 4: "handleDelete 8 ''a'' exTree = Some nodes'"
    by blast
  have 6: "map node_id [mkNode ''r'' None Root False] = [''r'']"
    by code_simp
  have 5: "map node_id nodes' = [''r''] \<and> (\<forall>u\<in>set nodes'. \<not> orphan nodes' u)"
    using C4_delete_subtree [OF 1 2, of "''a''"] 3 4 6 by auto
  then have "nodes' \<noteq> []" by auto
  then have "hd nodes' \<in> set nodes'" by simp
  then show ?thesis
    using 0 2 3 4 5 by simp
qed

section \<open>What a traversal visits\<close>

lemma layoutNode_from_empty:
  "layoutNode d ns cm i x y st
     = map_option (\<lambda>(h, w). (h, mapsAdd st w)) (layoutNode d ns cm i x y emptyMaps)"
  using layoutNode_framed [of d ns cm] unfolding framed_def by blast

lemma layoutNode_run:
  assumes "layoutNode d ns cm i x y st = Some (h, st')"
  obtains w where "layoutNode d ns cm i x y emptyMaps = Some (h, w)" and "st' = mapsAdd st w"
  using assms by (subst (asm) layoutNode_from_empty) auto

lemma layoutNode_moved:
  assumes "layoutNode d ns cm i x y emptyMaps = Some (h, w)"
  obtains w' where "layoutNode d ns cm i x' y' emptyMaps = Some (h, w')"
    and "dom (fst w') = dom (fst w)" and "snd w' = snd w"
proof -
  have "rel_option sameResult (layoutNode d ns cm i x y emptyMaps)
      (layoutNode d ns cm i x' y' emptyMaps)"
    by (rule layoutNode_shape) simp
  then obtain r where r: "layoutNode d ns cm i x' y' emptyMaps = Some r" and s: "sameResult (h, w) r"
    using assms by (cases "layoutNode d ns cm i x' y' emptyMaps") simp_all
  obtain h' w' where hw: "r = (h', w')" by (cases r)
  show thesis
    using r s that [of w'] by (simp add: hw sameResult_def sameShape_def)
qed

lemma visitedBy_eq:
  assumes "layoutNode d ns cm i x y emptyMaps = Some (h, w)"
  shows "visitedBy d ns cm i = dom (fst w)"
proof (rule layoutNode_moved [OF assms, of 0 0])
  fix w'
  assume 1: "layoutNode d ns cm i 0 0 emptyMaps = Some (h, w')"
    and 2: "dom (fst w') = dom (fst w)"
  have "visitedBy d ns cm i = dom (fst w')"
    unfolding visitedBy_def 1 by simp
  then show ?thesis
    unfolding 2 .
qed

lemma visitedBy_run:
  assumes "layoutNode d ns cm i x y st = Some (h, st')"
  shows "dom (fst st') = dom (fst st) \<union> visitedBy d ns cm i"
    and "\<And>v. v \<notin> visitedBy d ns cm i \<Longrightarrow> fst st' v = fst st v"
    and "layoutNode d ns cm i x' y' emptyMaps \<noteq> None"
proof -
  obtain w where w: "layoutNode d ns cm i x y emptyMaps = Some (h, w)" and s: "st' = mapsAdd st w"
    using assms by (rule layoutNode_run)
  have v: "visitedBy d ns cm i = dom (fst w)"
    by (rule visitedBy_eq [OF w])
  show "dom (fst st') = dom (fst st) \<union> visitedBy d ns cm i"
    unfolding v s by (auto simp: mapsAdd_def)
  show "fst st' v = fst st v" if "v \<notin> visitedBy d ns cm i" for v
    using that unfolding v s by (simp add: mapsAdd_def map_add_dom_app_simps)
  show "layoutNode d ns cm i x' y' emptyMaps \<noteq> None"
    by (rule layoutNode_moved [OF w, of x' y']) simp
qed

lemma layoutChildren_step:
  assumes "layoutChildren rec (c # cs) cx cy t st = Some (h, st')"
  obtains h1 st1 where "rec (node_id c) cx cy st = Some (h1, st1)"
    and "layoutChildren rec cs cx (cy + (h1 + GAP_Y)) (t + (h1 + GAP_Y)) st1 = Some (h, st')"
  using assms by (auto split: option.splits)

lemma layoutChildren_dom:
  "layoutChildren (layoutNode d ns cm) cs cx cy t st = Some (h, st') \<Longrightarrow>
     dom (fst st') = dom (fst st) \<union> (\<Union>c\<in>set cs. visitedBy d ns cm (node_id c))"
proof (induction cs arbitrary: cy t st)
  case Nil
  then show ?case by simp
next
  case (Cons c cs)
  from Cons.prems obtain h1 st1 where
    1: "layoutNode d ns cm (node_id c) cx cy st = Some (h1, st1)" and
    2: "layoutChildren (layoutNode d ns cm) cs cx (cy + (h1 + GAP_Y)) (t + (h1 + GAP_Y)) st1
          = Some (h, st')"
    by (rule layoutChildren_step)
  show ?case
    unfolding Cons.IH [OF 2] visitedBy_run(1) [OF 1] by auto
qed

lemma layoutChildren_keeps:
  "layoutChildren (layoutNode d ns cm) cs cx cy t st = Some (h, st') \<Longrightarrow>
     v \<notin> (\<Union>c\<in>set cs. visitedBy d ns cm (node_id c)) \<Longrightarrow> fst st' v = fst st v"
proof (induction cs arbitrary: cy t st)
  case Nil
  then show ?case by simp
next
  case (Cons c cs)
  from Cons.prems(1) obtain h1 st1 where
    1: "layoutNode d ns cm (node_id c) cx cy st = Some (h1, st1)" and
    2: "layoutChildren (layoutNode d ns cm) cs cx (cy + (h1 + GAP_Y)) (t + (h1 + GAP_Y)) st1
          = Some (h, st')"
    by (rule layoutChildren_step)
  have a: "v \<notin> visitedBy d ns cm (node_id c)"
    and b: "v \<notin> (\<Union>c\<in>set cs. visitedBy d ns cm (node_id c))"
    using Cons.prems(2) by simp_all
  have "fst st' v = fst st1 v" by (rule Cons.IH [OF 2 b])
  also have "\<dots> = fst st v" by (rule visitedBy_run(2) [OF 1 a])
  finally show ?case .
qed

lemma layoutChildren_ok:
  "layoutChildren (layoutNode d ns cm) cs cx cy t st = Some (h, st') \<Longrightarrow>
     c \<in> set cs \<Longrightarrow> layoutNode d ns cm (node_id c) x' y' emptyMaps \<noteq> None"
proof (induction cs arbitrary: cy t st)
  case Nil
  then show ?case by simp
next
  case (Cons c0 cs)
  from Cons.prems(1) obtain h1 st1 where
    1: "layoutNode d ns cm (node_id c0) cx cy st = Some (h1, st1)" and
    2: "layoutChildren (layoutNode d ns cm) cs cx (cy + (h1 + GAP_Y)) (t + (h1 + GAP_Y)) st1
          = Some (h, st')"
    by (rule layoutChildren_step)
  show ?case
  proof (cases "c = c0")
    case True
    then show ?thesis using visitedBy_run(3) [OF 1] by simp
  next
    case False
    then have "c \<in> set cs" using Cons.prems(2) by simp
    then show ?thesis by (rule Cons.IH [OF 2])
  qed
qed

lemma visitedBy_leaf:
  assumes "find (\<lambda>n. node_id n = i) ns = Some node" and "leafAt cm i node"
  shows "visitedBy (Suc d) ns cm i = {i}"
  using assms by (simp add: visitedBy_def leafAt_def layoutNode_leaf emptyMaps_def)

lemma visitedBy_missing:
  assumes "find (\<lambda>n. node_id n = i) ns = None"
  shows "visitedBy (Suc d) ns cm i = {}"
  using assms by (simp add: visitedBy_def layoutNode_missing emptyMaps_def)

lemma layoutNode_inner_run:
  assumes "layoutNode (Suc d) ns cm i x y st = Some (h, st')"
    and "find (\<lambda>n. node_id n = i) ns = Some node" and "\<not> leafAt cm i node"
  shows "dom (fst st') = insert i (dom (fst st))
            \<union> (\<Union>c\<in>set (childrenOf cm i). visitedBy d ns cm (node_id c))"
    and "\<And>v. v \<notin> (\<Union>c\<in>set (childrenOf cm i). visitedBy d ns cm (node_id c)) \<Longrightarrow>
           fst st' v = ((fst st)(i \<mapsto> \<lparr>pos_x = x, pos_y = y\<rparr>)) v"
    and "\<And>c x' y'. c \<in> set (childrenOf cm i) \<Longrightarrow>
           layoutNode d ns cm (node_id c) x' y' emptyMaps \<noteq> None"
proof -
  let ?s1 = "((fst st)(i \<mapsto> \<lparr>pos_x = x, pos_y = y\<rparr>), (snd st)(i \<mapsto> getNodeHeight node))"
  have l: "layoutChildren (layoutNode d ns cm) (childrenOf cm i) (x + INDENT_X)
         (y + getNodeHeight node + GAP_Y) (getNodeHeight node + GAP_Y) ?s1 = Some (h, st')"
    using assms by (simp add: layoutNode_inner leafAt_def)
  note r1 = layoutChildren_dom [OF l] and r2 = layoutChildren_keeps [OF l]
    and r3 = layoutChildren_ok [OF l]
  show "dom (fst st') = insert i (dom (fst st))
            \<union> (\<Union>c\<in>set (childrenOf cm i). visitedBy d ns cm (node_id c))"
    unfolding r1 by simp
  show "fst st' v = ((fst st)(i \<mapsto> \<lparr>pos_x = x, pos_y = y\<rparr>)) v"
    if "v \<notin> (\<Union>c\<in>set (childrenOf cm i). visitedBy d ns cm (node_id c))" for v
    using r2 [OF that] by simp
  show "layoutNode d ns cm (node_id c) x' y' emptyMaps \<noteq> None"
    if "c \<in> set (childrenOf cm i)" for c x' y'
    using that by (rule r3)
qed

lemma visitedBy_inner:
  assumes "layoutNode (Suc d) ns cm i x y st = Some (h, st')"
    and "find (\<lambda>n. node_id n = i) ns = Some node" and "\<not> leafAt cm i node"
  shows "visitedBy (Suc d) ns cm i
     = insert i (\<Union>c\<in>set (childrenOf cm i). visitedBy d ns cm (node_id c))"
proof -
  obtain w where w: "layoutNode (Suc d) ns cm i x y emptyMaps = Some (h, w)"
    using assms(1) by (rule layoutNode_run)
  have "visitedBy (Suc d) ns cm i = dom (fst w)"
    by (rule visitedBy_eq [OF w])
  also have "\<dots> = insert i (dom (fst emptyMaps))
            \<union> (\<Union>c\<in>set (childrenOf cm i). visitedBy d ns cm (node_id c))"
    by (rule layoutNode_inner_run(1) [OF w assms(2,3)])
  finally show ?thesis by (simp add: emptyMaps_def)
qed

lemma visitedBy_mono:
  assumes "layoutNode d ns cm i x y emptyMaps \<noteq> None"
  shows "visitedBy (Suc d) ns cm i = visitedBy d ns cm i"
proof -
  obtain h w where w: "layoutNode d ns cm i x y emptyMaps = Some (h, w)"
    using assms by auto
  then have "layoutNode (Suc d) ns cm i x y emptyMaps = Some (h, w)"
    by (rule layoutNode_Suc)
  then show ?thesis
    using w by (simp add: visitedBy_eq)
qed


lemma visited_ok:
  "layoutNode d ns cm i x y emptyMaps \<noteq> None \<Longrightarrow> j \<in> visitedBy d ns cm i \<Longrightarrow>
     layoutNode d ns cm j x' y' emptyMaps \<noteq> None"
proof (induction d arbitrary: i x y)
  case 0
  then show ?case by simp
next
  case (Suc d)
  obtain h w where w: "layoutNode (Suc d) ns cm i x y emptyMaps = Some (h, w)"
    using Suc.prems(1) by auto
  show ?case
  proof (cases "j = i")
    case True
    show ?thesis
      unfolding True by (rule visitedBy_run(3) [OF w])
  next
    case False
    show ?thesis
    proof (cases "find (\<lambda>n. node_id n = i) ns")
      case None
      then show ?thesis using Suc.prems(2) by (simp add: visitedBy_missing)
    next
      case (Some node)
      show ?thesis
      proof (cases "leafAt cm i node")
        case True
        then show ?thesis using Suc.prems(2) Some False by (simp add: visitedBy_leaf)
      next
        case leaf: False
        have "j \<in> insert i (\<Union>c\<in>set (childrenOf cm i). visitedBy d ns cm (node_id c))"
          using Suc.prems(2) unfolding visitedBy_inner [OF w Some leaf] .
        then obtain c where c: "c \<in> set (childrenOf cm i)" and j: "j \<in> visitedBy d ns cm (node_id c)"
          using False by auto
        have "layoutNode d ns cm (node_id c) 0 0 emptyMaps \<noteq> None"
          by (rule layoutNode_inner_run(3) [OF w Some leaf c])
        then have "layoutNode d ns cm j x' y' emptyMaps \<noteq> None"
          using j by (rule Suc.IH)
        then show ?thesis
          by (auto dest: layoutNode_Suc)
      qed
    qed
  qed
qed

lemma visited_closed:
  "layoutNode d ns cm i x y emptyMaps \<noteq> None \<Longrightarrow> j \<in> visitedBy d ns cm i \<Longrightarrow>
     visitedBy d ns cm j \<subseteq> visitedBy d ns cm i"
proof (induction d arbitrary: i x y)
  case 0
  then show ?case by simp
next
  case (Suc d)
  obtain h w where w: "layoutNode (Suc d) ns cm i x y emptyMaps = Some (h, w)"
    using Suc.prems(1) by auto
  show ?case
  proof (cases "j = i")
    case True
    then show ?thesis by simp
  next
    case False
    show ?thesis
    proof (cases "find (\<lambda>n. node_id n = i) ns")
      case None
      then show ?thesis using Suc.prems(2) by (simp add: visitedBy_missing)
    next
      case (Some node)
      show ?thesis
      proof (cases "leafAt cm i node")
        case True
        then show ?thesis using Suc.prems(2) Some False by (simp add: visitedBy_leaf)
      next
        case leaf: False
        note v = visitedBy_inner [OF w Some leaf]
        have "j \<in> insert i (\<Union>c\<in>set (childrenOf cm i). visitedBy d ns cm (node_id c))"
          using Suc.prems(2) unfolding v .
        then obtain c where c: "c \<in> set (childrenOf cm i)" and j: "j \<in> visitedBy d ns cm (node_id c)"
          using False by auto
        have okc: "layoutNode d ns cm (node_id c) 0 0 emptyMaps \<noteq> None"
          by (rule layoutNode_inner_run(3) [OF w Some leaf c])
        have okj: "layoutNode d ns cm j 0 0 emptyMaps \<noteq> None"
          by (rule visited_ok [OF okc j])
        have "visitedBy (Suc d) ns cm j = visitedBy d ns cm j"
          by (rule visitedBy_mono [OF okj])
        also have "\<dots> \<subseteq> visitedBy d ns cm (node_id c)"
          by (rule Suc.IH [OF okc j])
        also have "\<dots> \<subseteq> visitedBy (Suc d) ns cm i"
          unfolding v using c by auto
        finally show ?thesis .
      qed
    qed
  qed
qed

lemma own_position:
  "layoutNode d ns cm i x y emptyMaps = Some (h, w) \<Longrightarrow> find (\<lambda>n. node_id n = i) ns \<noteq> None \<Longrightarrow>
     fst w i = Some \<lparr>pos_x = x, pos_y = y\<rparr>"
proof (induction d arbitrary: h w)
  case 0
  then show ?case by simp
next
  case (Suc d)
  obtain node where node: "find (\<lambda>n. node_id n = i) ns = Some node"
    using Suc.prems(2) by auto
  show ?case
  proof (cases "leafAt cm i node")
    case True
    then show ?thesis
      using Suc.prems(1) node by (auto simp: leafAt_def layoutNode_leaf emptyMaps_def)
  next
    case leaf: False
    let ?below = "\<Union>c\<in>set (childrenOf cm i). visitedBy d ns cm (node_id c)"
    show ?thesis
    proof (cases "i \<in> ?below")
      case False
      then have "fst w i = ((fst emptyMaps)(i \<mapsto> \<lparr>pos_x = x, pos_y = y\<rparr>)) i"
        by (rule layoutNode_inner_run(2) [OF Suc.prems(1) node leaf])
      then show ?thesis by simp
    next
      case True
      then obtain c where c: "c \<in> set (childrenOf cm i)" and j: "i \<in> visitedBy d ns cm (node_id c)"
        by auto
      have okc: "layoutNode d ns cm (node_id c) 0 0 emptyMaps \<noteq> None"
        by (rule layoutNode_inner_run(3) [OF Suc.prems(1) node leaf c])
      have "layoutNode d ns cm i x y emptyMaps \<noteq> None"
        by (rule visited_ok [OF okc j])
      then obtain r where r: "layoutNode d ns cm i x y emptyMaps = Some r"
        by auto
      then have "layoutNode (Suc d) ns cm i x y emptyMaps = Some r"
        by (rule layoutNode_Suc)
      then have "r = (h, w)" using Suc.prems(1) by simp
      then show ?thesis
        using r Suc.IH [of h w] Suc.prems(2) by simp
    qed
  qed
qed

lemma self_visited:
  assumes "layoutNode d ns cm i x y emptyMaps \<noteq> None" and "find (\<lambda>n. node_id n = i) ns \<noteq> None"
  shows "i \<in> visitedBy d ns cm i"
proof -
  obtain h w where w: "layoutNode d ns cm i x y emptyMaps = Some (h, w)"
    using assms(1) by auto
  have "fst w i \<noteq> None"
    using own_position [OF w assms(2)] by simp
  then show ?thesis
    unfolding visitedBy_eq [OF w] by auto
qed

lemma getNodeHeight_nonzero: "getNodeHeight n \<noteq> 0"
  by (simp add: getNodeHeight_def)

lemma goodMaps_update:
  "goodMaps st \<Longrightarrow> goodMaps ((fst st)(i \<mapsto> p), (snd st)(i \<mapsto> getNodeHeight n))"
  by (auto simp: goodMaps_def getNodeHeight_nonzero)

lemma layoutChildren_good:
  assumes "\<And>i x y st r. rec i x y st = Some r \<Longrightarrow> goodMaps st \<Longrightarrow> goodMaps (snd r)"
  shows "layoutChildren rec cs cx cy t st = Some (h, st') \<Longrightarrow> goodMaps st \<Longrightarrow> goodMaps st'"
proof (induction cs arbitrary: cy t st)
  case Nil
  then show ?case by simp
next
  case (Cons c cs)
  from Cons.prems(1) obtain h1 st1 where
    1: "rec (node_id c) cx cy st = Some (h1, st1)" and
    2: "layoutChildren rec cs cx (cy + (h1 + GAP_Y)) (t + (h1 + GAP_Y)) st1 = Some (h, st')"
    by (rule layoutChildren_step)
  have "goodMaps st1" using assms [OF 1 Cons.prems(2)] by simp
  then show ?case by (rule Cons.IH [OF 2])
qed

lemma layoutNode_good:
  "layoutNode d ns cm i x y st = Some r \<Longrightarrow> goodMaps st \<Longrightarrow> goodMaps (snd r)"
proof (induction d arbitrary: i x y st r)
  case 0
  then show ?case by simp
next
  case (Suc d)
  show ?case
  proof (cases "find (\<lambda>n. node_id n = i) ns")
    case None
    then show ?thesis using Suc.prems by (auto simp: layoutNode_missing)
  next
    case (Some node)
    let ?s1 = "((fst st)(i \<mapsto> \<lparr>pos_x = x, pos_y = y\<rparr>), (snd st)(i \<mapsto> getNodeHeight node))"
    have g: "goodMaps ?s1" by (rule goodMaps_update [OF Suc.prems(2)])
    show ?thesis
    proof (cases "leafAt cm i node")
      case True
      then show ?thesis
        using Suc.prems(1) Some g by (auto simp: leafAt_def layoutNode_leaf)
    next
      case False
      obtain h st' where r: "r = (h, st')" by (cases r)
      have l: "layoutChildren (layoutNode d ns cm) (childrenOf cm i) (x + INDENT_X)
         (y + getNodeHeight node + GAP_Y) (getNodeHeight node + GAP_Y) ?s1 = Some (h, st')"
        using Suc.prems(1) Some False unfolding r by (simp add: layoutNode_inner leafAt_def)
      have "goodMaps st'"
        by (rule layoutChildren_good [OF Suc.IH l g])
      then show ?thesis by (simp add: r)
    qed
  qed
qed

lemma layoutRoots_step:
  assumes "layoutRoots d ns cm (r # rs) st = Some st'"
  obtains h st1 where
    "layoutNode d ns cm (node_id r) (pos_x (position r)) (pos_y (position r)) st = Some (h, st1)"
    and "layoutRoots d ns cm rs st1 = Some st'"
  using assms by (auto split: option.splits)

lemma layoutRoots_snoc:
  "layoutRoots d ns cm (rs @ [r]) st
     = (case layoutRoots d ns cm rs st of
          None \<Rightarrow> None
        | Some s \<Rightarrow>
            map_option snd
              (layoutNode d ns cm (node_id r) (pos_x (position r)) (pos_y (position r)) s))"
proof (induction rs arbitrary: st)
  case Nil
  then show ?case by (auto split: option.splits)
next
  case (Cons a rs)
  show ?case
    by (cases "layoutNode d ns cm (node_id a) (pos_x (position a)) (pos_y (position a)) st")
       (auto simp: Cons.IH)
qed

lemma layoutRoots_snoc_run:
  assumes "layoutRoots d ns cm (rs @ [r]) st = Some st'"
  obtains h st0 where "layoutRoots d ns cm rs st = Some st0"
    and "layoutNode d ns cm (node_id r) (pos_x (position r)) (pos_y (position r)) st0 = Some (h, st')"
  using assms unfolding layoutRoots_snoc by (auto split: option.splits)

lemma layoutRoots_good:
  "layoutRoots d ns cm rs st = Some st' \<Longrightarrow> goodMaps st \<Longrightarrow> goodMaps st'"
proof (induction rs arbitrary: st)
  case Nil
  then show ?case by simp
next
  case (Cons r rs)
  from Cons.prems(1) obtain h st1 where
    1: "layoutNode d ns cm (node_id r) (pos_x (position r)) (pos_y (position r)) st = Some (h, st1)"
    and 2: "layoutRoots d ns cm rs st1 = Some st'"
    by (rule layoutRoots_step)
  have "goodMaps st1" using layoutNode_good [OF 1 Cons.prems(2)] by simp
  then show ?case by (rule Cons.IH [OF 2])
qed

lemma layoutRoots_visits:
  "layoutRoots d ns cm rs st = Some st' \<Longrightarrow> r \<in> set rs \<Longrightarrow>
     visitedBy d ns cm (node_id r) \<subseteq> dom (fst st')
     \<and> layoutNode d ns cm (node_id r) 0 0 emptyMaps \<noteq> None"
proof (induction rs arbitrary: st' rule: rev_induct)
  case Nil
  then show ?case by simp
next
  case (snoc a rs)
  from snoc.prems(1) obtain h st0 where
    1: "layoutRoots d ns cm rs st = Some st0" and
    2: "layoutNode d ns cm (node_id a) (pos_x (position a)) (pos_y (position a)) st0 = Some (h, st')"
    by (rule layoutRoots_snoc_run)
  note v = visitedBy_run [OF 2]
  show ?case
  proof (cases "r = a")
    case True
    then show ?thesis using v(1) v(3) by auto
  next
    case False
    then have "r \<in> set rs" using snoc.prems(2) by simp
    then have "visitedBy d ns cm (node_id r) \<subseteq> dom (fst st0)
       \<and> layoutNode d ns cm (node_id r) 0 0 emptyMaps \<noteq> None"
      by (rule snoc.IH [OF 1])
    then show ?thesis using v(1) by auto
  qed
qed

lemma closedIds_Un:
  assumes "closedIds d ns cm C" and "layoutNode d ns cm i x y emptyMaps \<noteq> None"
  shows "closedIds d ns cm (C \<union> visitedBy d ns cm i)"
  unfolding closedIds_def
proof
  fix v assume "v \<in> C \<union> visitedBy d ns cm i"
  then consider "v \<in> C" | "v \<in> visitedBy d ns cm i" by auto
  then show "visitedBy d ns cm v \<subseteq> C \<union> visitedBy d ns cm i"
  proof cases
    case 1
    then show ?thesis using assms(1) unfolding closedIds_def by auto
  next
    case 2
    then show ?thesis using visited_closed [OF assms(2) 2] by auto
  qed
qed

lemma position_eq:
  assumes "position u = \<lparr>pos_x = a, pos_y = b\<rparr>"
  shows "pos_x (position u) = a" and "pos_y (position u) = b"
  using assms by simp_all

lemma relayout:
  fixes f :: "NodeData \<Rightarrow> NodeData"
  assumes f: "\<And>u. node_id (f u) = node_id u"
  shows "layoutRoots d ns cm rs emptyMaps = Some st \<Longrightarrow>
     (\<And>r. r \<in> set rs \<Longrightarrow> find (\<lambda>n. node_id n = node_id r) ns \<noteq> None) \<Longrightarrow>
     closedIds d ns cm C \<Longrightarrow>
     (\<And>v. v \<notin> C \<Longrightarrow> v \<in> dom (fst st) \<Longrightarrow> G v = fst st v) \<Longrightarrow>
     (\<And>r. r \<in> set rs \<Longrightarrow> node_id r \<notin> C \<Longrightarrow> position (f r) = the (G (node_id r))) \<Longrightarrow>
     \<exists>st'. layoutRoots d ns cm (map f rs) emptyMaps = Some st'
        \<and> (\<forall>v. v \<notin> C \<longrightarrow> fst st' v = fst st v) \<and> sameShape st' st"
proof (induction rs arbitrary: st C rule: rev_induct)
  case Nil
  then show ?case by simp
next
  case (snoc r rs)
  let ?i = "node_id r"
  let ?V = "visitedBy d ns cm ?i"
  from snoc.prems(1) obtain h st0 where
    A: "layoutRoots d ns cm rs emptyMaps = Some st0" and
    B: "layoutNode d ns cm ?i (pos_x (position r)) (pos_y (position r)) st0 = Some (h, st)"
    by (rule layoutRoots_snoc_run)
  note vB = visitedBy_run [OF B]
  obtain w where w: "layoutNode d ns cm ?i (pos_x (position r)) (pos_y (position r)) emptyMaps
      = Some (h, w)" and stw: "st = mapsAdd st0 w"
    using B by (rule layoutNode_run)
  have Vw: "?V = dom (fst w)" by (rule visitedBy_eq [OF w])
  have found: "find (\<lambda>n. node_id n = ?i) ns \<noteq> None"
    by (rule snoc.prems(2)) simp
  have ok: "layoutNode d ns cm ?i 0 0 emptyMaps \<noteq> None"
    by (rule vB(3))
  have found_rs: "\<And>r. r \<in> set rs \<Longrightarrow> find (\<lambda>n. node_id n = node_id r) ns \<noteq> None"
    by (rule snoc.prems(2)) simp
  show ?case
  proof (cases "?i \<in> C")
    case True
    then have VC: "?V \<subseteq> C"
      using snoc.prems(3) unfolding closedIds_def by blast
    have G0: "G v = fst st0 v" if "v \<notin> C" "v \<in> dom (fst st0)" for v
    proof -
      have nv: "v \<notin> ?V" using that(1) VC by auto
      have "v \<in> dom (fst st)" using that(2) unfolding vB(1) by simp
      then have "G v = fst st v" by (rule snoc.prems(4) [OF that(1)])
      also have "\<dots> = fst st0 v" by (rule vB(2) [OF nv])
      finally show ?thesis .
    qed
    have P0: "position (f r') = the (G (node_id r'))" if "r' \<in> set rs" "node_id r' \<notin> C" for r'
      using that by (intro snoc.prems(5)) simp_all
    obtain st0' where A': "layoutRoots d ns cm (map f rs) emptyMaps = Some st0'"
      and agree: "\<And>v. v \<notin> C \<Longrightarrow> fst st0' v = fst st0 v" and sh: "sameShape st0' st0"
      using snoc.IH [OF A found_rs snoc.prems(3) G0 P0] by blast
    have "rel_option sameResult
        (layoutNode d ns cm ?i (pos_x (position (f r))) (pos_y (position (f r))) st0')
        (layoutNode d ns cm ?i (pos_x (position r)) (pos_y (position r)) st0)"
      by (rule layoutNode_shape [OF sh])
    then obtain r' where B': "layoutNode d ns cm ?i (pos_x (position (f r)))
        (pos_y (position (f r))) st0' = Some r'" and sr: "sameResult r' (h, st)"
      unfolding B
      by (cases "layoutNode d ns cm ?i (pos_x (position (f r))) (pos_y (position (f r))) st0'")
         simp_all
    obtain h' st' where r': "r' = (h', st')" by (cases r')
    note vB' = visitedBy_run [OF B' [unfolded r']]
    have 1: "layoutRoots d ns cm (map f (rs @ [r])) emptyMaps = Some st'"
      using A' B' r' by (simp add: layoutRoots_snoc f)
    have 2: "fst st' v = fst st v" if "v \<notin> C" for v
    proof -
      have nv: "v \<notin> ?V" using that VC by auto
      have "fst st' v = fst st0' v" by (rule vB'(2) [OF nv])
      also have "\<dots> = fst st0 v" by (rule agree [OF that])
      also have "\<dots> = fst st v" by (rule vB(2) [OF nv, symmetric])
      finally show ?thesis .
    qed
    have 3: "sameShape st' st"
      using sr r' by (simp add: sameResult_def)
    show ?thesis using 1 2 3 by blast
  next
    case False
    have self: "?i \<in> ?V" by (rule self_visited [OF ok found])
    have own: "fst w ?i = Some \<lparr>pos_x = pos_x (position r), pos_y = pos_y (position r)\<rparr>"
      by (rule own_position [OF w found])
    have "?i \<in> dom (fst st)" using self unfolding vB(1) by simp
    then have "G ?i = fst st ?i" by (rule snoc.prems(4) [OF False])
    also have "\<dots> = fst w ?i"
      using self unfolding stw Vw by (auto simp: mapsAdd_def map_add_dom_app_simps)
    finally have "G ?i = Some \<lparr>pos_x = pos_x (position r), pos_y = pos_y (position r)\<rparr>"
      using own by simp
    moreover have "position (f r) = the (G ?i)"
      using False by (intro snoc.prems(5)) simp_all
    ultimately have pf: "position (f r) = \<lparr>pos_x = pos_x (position r), pos_y = pos_y (position r)\<rparr>"
      by simp
    let ?C' = "C \<union> ?V"
    have cl: "closedIds d ns cm ?C'"
      by (rule closedIds_Un [OF snoc.prems(3) ok])
    have G0: "G v = fst st0 v" if "v \<notin> ?C'" "v \<in> dom (fst st0)" for v
    proof -
      have nv: "v \<notin> ?V" and nc: "v \<notin> C" using that(1) by auto
      have "v \<in> dom (fst st)" using that(2) unfolding vB(1) by simp
      then have "G v = fst st v" by (rule snoc.prems(4) [OF nc])
      also have "\<dots> = fst st0 v" by (rule vB(2) [OF nv])
      finally show ?thesis .
    qed
    have P0: "position (f r') = the (G (node_id r'))" if "r' \<in> set rs" "node_id r' \<notin> ?C'" for r'
      using that by (intro snoc.prems(5)) simp_all
    obtain st0' where A': "layoutRoots d ns cm (map f rs) emptyMaps = Some st0'"
      and agree: "\<And>v. v \<notin> ?C' \<Longrightarrow> fst st0' v = fst st0 v" and sh: "sameShape st0' st0"
      using snoc.IH [OF A found_rs cl G0 P0] by blast
    let ?st' = "mapsAdd st0' w"
    have B': "layoutNode d ns cm ?i (pos_x (position (f r))) (pos_y (position (f r))) st0'
        = Some (h, ?st')"
      unfolding position_eq [OF pf]
      by (subst layoutNode_from_empty) (simp add: w)
    have 1: "layoutRoots d ns cm (map f (rs @ [r])) emptyMaps = Some ?st'"
      using A' B' by (simp add: layoutRoots_snoc f)
    have 2: "fst ?st' v = fst st v" if "v \<notin> C" for v
    proof (cases "v \<in> dom (fst w)")
      case True
      then show ?thesis
        unfolding stw by (auto simp: mapsAdd_def map_add_dom_app_simps)
    next
      case False
      then have "v \<notin> ?C'" using that Vw by simp
      then have "fst st0' v = fst st0 v" by (rule agree)
      then show ?thesis
        using False unfolding stw by (simp add: mapsAdd_def map_add_dom_app_simps)
    qed
    have 3: "sameShape ?st' st"
      using sh unfolding stw by (simp add: sameShape_def mapsAdd_def)
    show ?thesis using 1 2 3 by blast
  qed
qed

section \<open>Idempotence of the layout engine\<close>

lemma applyLayout_idem: "applyLayout st (applyLayout st u) = applyLayout st u"
  by (simp add: applyLayout_def split: option.splits)

lemma applyLayout_position:
  assumes "goodMaps st" and "node_id u \<in> dom (fst st)"
  shows "position (applyLayout st u) = the (fst st (node_id u))"
proof -
  obtain p where p: "fst st (node_id u) = Some p" using assms(2) by auto
  have "node_id u \<in> dom (snd st)" using assms unfolding goodMaps_def by simp
  then obtain h where h: "snd st (node_id u) = Some h" by auto
  have "h \<noteq> 0" using assms(1) h unfolding goodMaps_def by blast
  then show ?thesis using p h by (simp add: applyLayout_def)
qed

lemma isRoot_applyLayout [simp]: "isRoot (applyLayout st u) = isRoot u"
  by (simp add: isRoot_def)

lemma find_member:
  "r \<in> set ns \<Longrightarrow> find (\<lambda>n. node_id n = node_id r) ns \<noteq> None"
  by (auto simp: find_None_iff)

lemma goodMaps_empty: "goodMaps emptyMaps"
  by (simp add: goodMaps_def emptyMaps_def)

lemma layoutMaps_again:
  assumes "layoutMaps d ns = Some st"
  shows "layoutMaps d (map (applyLayout st) ns) = Some st"
proof -
  let ?cm = "buildChildrenMap ns" and ?rs = "filter isRoot ns"
  let ?ns' = "map (applyLayout st) ns"
  have run: "layoutRoots d ns ?cm ?rs emptyMaps = Some st"
    using assms by (simp add: layoutMaps_def emptyMaps_def)
  have good: "goodMaps st"
    by (rule layoutRoots_good [OF run goodMaps_empty])
  have visited: "node_id r \<in> dom (fst st)" if "r \<in> set ?rs" for r
  proof -
    have v: "visitedBy d ns ?cm (node_id r) \<subseteq> dom (fst st)"
      and ok: "layoutNode d ns ?cm (node_id r) 0 0 emptyMaps \<noteq> None"
      using layoutRoots_visits [OF run that] by simp_all
    have "find (\<lambda>n. node_id n = node_id r) ns \<noteq> None"
      using that by (intro find_member) simp
    then have "node_id r \<in> visitedBy d ns ?cm (node_id r)"
      by (rule self_visited [OF ok])
    then show ?thesis using v by auto
  qed
  have "\<exists>st'. layoutRoots d ns ?cm (map (applyLayout st) ?rs) emptyMaps = Some st'
        \<and> (\<forall>v. v \<notin> {} \<longrightarrow> fst st' v = fst st v) \<and> sameShape st' st"
  proof (rule relayout [OF _ run, where G = "fst st"])
    show "node_id (applyLayout st u) = node_id u" for u by simp
    show "find (\<lambda>n. node_id n = node_id r) ns \<noteq> None" if "r \<in> set ?rs" for r
      using that by (intro find_member) simp
    show "closedIds d ns ?cm {}" by (simp add: closedIds_def)
    show "fst st v = fst st v" for v ..
    show "position (applyLayout st r) = the (fst st (node_id r))" if "r \<in> set ?rs" for r
      by (rule applyLayout_position [OF good visited [OF that]])
  qed
  then obtain st' where 1: "layoutRoots d ns ?cm (map (applyLayout st) ?rs) emptyMaps = Some st'"
    and 2: "\<And>v. fst st' v = fst st v" and 3: "sameShape st' st"
    by auto
  have "fst st' = fst st" using 2 by (intro ext)
  moreover have "snd st' = snd st" using 3 by (simp add: sameShape_def)
  ultimately have e: "st' = st" by (simp add: prod_eq_iff)
  have sk: "map skeleton ?ns' = map skeleton ns" by simp
  have roots: "filter isRoot ?ns' = map (applyLayout st) ?rs"
    by (simp add: filter_map comp_def)
  have "layoutMaps d ?ns' = layoutRoots d ?ns' (buildChildrenMap ?ns') (filter isRoot ?ns') emptyMaps"
    by (simp add: layoutMaps_def emptyMaps_def)
  also have "\<dots> = layoutRoots d ns ?cm (map (applyLayout st) ?rs) emptyMaps"
    unfolding roots by (rule layoutRoots_skeleton [OF sk]) simp_all
  finally show ?thesis using 1 e by simp
qed

text \<open>
  C2: a layout pass that returns is a fixed point of the layout engine: run on its
  own result, with the same call depth, the engine returns again and returns that
  same node list, so every position and every height is as after one pass.
\<close>

theorem C2_layout_idempotent:
  assumes "computeSmartLayout d nodes = Some nodes'"
  shows "computeSmartLayout d nodes' = Some nodes'"
proof -
  obtain st where st: "layoutMaps d nodes = Some st" and n: "nodes' = map (applyLayout st) nodes"
    using assms by (rule computeSmartLayout_Some)
  have "layoutMaps d nodes' = Some st"
    unfolding n by (rule layoutMaps_again [OF st])
  then show ?thesis
    by (simp add: computeSmartLayout_def n applyLayout_idem)
qed

theorem C2_layout_idempotent_witness:
  "computeSmartLayout 3 exTree \<noteq> None
   \<and> computeSmartLayout 3 (the (computeSmartLayout 3 exTree)) = computeSmartLayout 3 exTree"
proof -
  have "computeSmartLayout 3 exTree \<noteq> None"
    by code_simp
  then obtain nodes' where 1: "computeSmartLayout 3 exTree = Some nodes'"
    by blast
  show ?thesis
    using C2_layout_idempotent [OF 1] 1 by simp
qed

section \<open>Collapsing a node\<close>

lemma reach_in_set:
  "reach ns S u \<Longrightarrow> S \<subseteq> set ns \<Longrightarrow> u \<in> set ns"
  by (induction rule: reach.induct) auto

lemma underOpenAncestors_in_set:
  "underOpenAncestors ns u \<Longrightarrow> u \<in> set ns"
  unfolding underOpenAncestors_def by (erule reach_in_set) auto

lemma distinct_ids_eq:
  assumes "distinct (map node_id ns)" and "u \<in> set ns" and "v \<in> set ns"
    and "node_id u = node_id v"
  shows "u = v"
  using assms by (meson distinct_map inj_on_def)

lemma find_distinct:
  assumes "distinct (map node_id ns)" and "u \<in> set ns"
  shows "find (\<lambda>n. node_id n = node_id u) ns = Some u"
proof -
  obtain v where v: "find (\<lambda>n. node_id n = node_id u) ns = Some v"
    using assms(2) by (cases "find (\<lambda>n. node_id n = node_id u) ns") (auto simp: find_None_iff)
  then have "v \<in> set ns" "node_id v = node_id u"
    by (auto simp: find_Some_iff)
  then have "v = u" using assms by (intro distinct_ids_eq [of ns]) auto
  then show ?thesis using v by simp
qed

lemma find_in_set:
  assumes "find P ns = Some u"
  shows "u \<in> set ns" and "P u"
  using assms by (auto simp: find_Some_iff)

lemma isRoot_toggle [simp]: "isRoot (toggleCollapsed n u) = isRoot u"
  by (simp add: isRoot_def)

lemma toggle_other: "node_id u \<noteq> n \<Longrightarrow> toggleCollapsed n u = u"
  by (simp add: toggleCollapsed_def)

lemma toggle_collapses:
  "node_id u = n \<Longrightarrow> truthyBool (collapsed (toggleCollapsed n u)) = (\<not> truthyBool (collapsed u))"
  by (simp add: toggleCollapsed_def truthyBool_def)

text \<open>
  Collapsing the expanded node \<open>n\<close>: what stays reachable is what was reachable and
  is no strict descendant of \<open>n\<close>.
\<close>

lemma collapse_reach_only:
  assumes dist: "distinct (map node_id ns)"
    and N: "find (\<lambda>u. node_id u = n) ns = Some N" "\<not> truthyBool (collapsed N)"
    and noroot: "\<And>u. u \<in> set ns \<Longrightarrow> strictDescendant ns n (node_id u) \<Longrightarrow> \<not> isRoot u"
  shows "underOpenAncestors (map (toggleCollapsed n) ns) w \<Longrightarrow>
     \<exists>u. w = toggleCollapsed n u \<and> underOpenAncestors ns u \<and> \<not> strictDescendant ns n (node_id u)"
  unfolding underOpenAncestors_def
proof (induction rule: reach.induct)
  case (start w)
  then obtain u where u: "u \<in> set ns" "w = toggleCollapsed n u" "isRoot u"
    by auto
  have "reach ns (set (filter isRoot ns)) u"
    using u by (intro reach.start) simp
  moreover have "\<not> strictDescendant ns n (node_id u)"
    using noroot [OF u(1)] u(3) by blast
  ultimately show ?case using u(2) by blast
next
  case (step w c)
  then obtain u where u: "w = toggleCollapsed n u" "reach ns (set (filter isRoot ns)) u"
    "\<not> strictDescendant ns n (node_id u)"
    by blast
  have uin: "u \<in> set ns"
    using u(2) by (rule reach_in_set) auto
  obtain c0 where c0: "c0 \<in> set ns" "c = toggleCollapsed n c0"
    using step.hyps(3) by auto
  have par: "parentId c0 = Some (node_id u)"
    using step.hyps(4) c0(2) u(1) by simp
  have nn: "node_id u \<noteq> n"
  proof
    assume e: "node_id u = n"
    have "N \<in> set ns" "node_id N = n" using find_in_set [OF N(1)] by simp_all
    then have "u = N" using e uin by (intro distinct_ids_eq [OF dist]) simp_all
    then have "truthyBool (collapsed (toggleCollapsed n u))"
      using toggle_collapses [OF e] N(2) by simp
    then show False using step.hyps(2) u(1) by simp
  qed
  then have wu: "w = u" using u(1) by (simp add: toggle_other)
  have "reach ns (set (filter isRoot ns)) c0"
    using u(2) step.hyps(2) c0(1) par unfolding wu by (rule reach.step)
  moreover have "\<not> strictDescendant ns n (node_id c0)"
  proof
    assume "strictDescendant ns n (node_id c0)"
    then show False
    proof (cases rule: strictDescendant.cases)
      case (child c')
      then have "c' = c0" by (intro distinct_ids_eq [OF dist _ c0(1)]) simp_all
      then show False using child par nn by simp
    next
      case (below m c')
      then have "c' = c0" by (intro distinct_ids_eq [OF dist _ c0(1)]) simp_all
      then show False using below par u(3) by simp
    qed
  qed
  ultimately show ?case using c0(2) by blast
qed

lemma collapse_reach_still:
  "underOpenAncestors ns u \<Longrightarrow> \<not> strictDescendant ns n (node_id u) \<Longrightarrow>
     underOpenAncestors (map (toggleCollapsed n) ns) (toggleCollapsed n u)"
  unfolding underOpenAncestors_def
proof (induction rule: reach.induct)
  case (start u)
  then show ?case by (intro reach.start) auto
next
  case (step u c)
  have nd: "\<not> strictDescendant ns n (node_id u)"
    using step.hyps(3,4) step.prems by (auto intro: strictDescendant.below)
  have nn: "node_id u \<noteq> n"
    using step.hyps(3,4) step.prems by (auto intro: strictDescendant.child)
  have "reach (map (toggleCollapsed n) ns) (set (filter isRoot (map (toggleCollapsed n) ns)))
      (toggleCollapsed n u)"
    by (rule step.IH [OF nd])
  moreover have "\<not> truthyBool (collapsed (toggleCollapsed n u))"
    using step.hyps(2) nn by (simp add: toggle_other)
  moreover have "toggleCollapsed n c \<in> set (map (toggleCollapsed n) ns)"
    using step.hyps(3) by simp
  moreover have "parentId (toggleCollapsed n c) = Some (node_id (toggleCollapsed n u))"
    using step.hyps(4) by simp
  ultimately show ?case by (rule reach.step)
qed

lemma collapse_visible:
  assumes dist: "distinct (map node_id ns)"
    and N: "find (\<lambda>u. node_id u = n) ns = Some N" "\<not> truthyBool (collapsed N)"
    and noroot: "\<And>u. u \<in> set ns \<Longrightarrow> strictDescendant ns n (node_id u) \<Longrightarrow> \<not> isRoot u"
  shows "node_id ` {w. underOpenAncestors (map (toggleCollapsed n) ns) w}
     = node_id ` {u. underOpenAncestors ns u} - {m. strictDescendant ns n m}"
proof (intro set_eqI iffI)
  fix i
  assume "i \<in> node_id ` {w. underOpenAncestors (map (toggleCollapsed n) ns) w}"
  then obtain w where w: "underOpenAncestors (map (toggleCollapsed n) ns) w" "i = node_id w"
    by auto
  obtain u where "w = toggleCollapsed n u" "underOpenAncestors ns u"
    "\<not> strictDescendant ns n (node_id u)"
    using collapse_reach_only [OF dist N noroot w(1)] by blast
  then show "i \<in> node_id ` {u. underOpenAncestors ns u} - {m. strictDescendant ns n m}"
    using w(2) by auto
next
  fix i
  assume "i \<in> node_id ` {u. underOpenAncestors ns u} - {m. strictDescendant ns n m}"
  then obtain u where u: "underOpenAncestors ns u" "i = node_id u"
    "\<not> strictDescendant ns n (node_id u)"
    by auto
  have "underOpenAncestors (map (toggleCollapsed n) ns) (toggleCollapsed n u)"
    by (rule collapse_reach_still [OF u(1,3)])
  moreover have "i = node_id (toggleCollapsed n u)"
    using u(2) by simp
  ultimately show "i \<in> node_id ` {w. underOpenAncestors (map (toggleCollapsed n) ns) w}"
    by blast
qed

lemma layoutNode_anywhere:
  assumes "layoutNode d ns cm i x y st \<noteq> None"
  shows "layoutNode d ns cm i x' y' st' \<noteq> None"
proof -
  obtain h st1 where "layoutNode d ns cm i x y st = Some (h, st1)"
    using assms by auto
  then have "layoutNode d ns cm i x' y' emptyMaps \<noteq> None"
    by (rule visitedBy_run(3))
  then show ?thesis
    by (subst layoutNode_from_empty) simp
qed

lemma layoutChildren_returns:
  assumes "\<And>c x y st. c \<in> set cs \<Longrightarrow> rec (node_id c) x y st \<noteq> None"
  shows "layoutChildren rec cs cx cy t st \<noteq> None"
  using assms
proof (induction cs arbitrary: cy t st)
  case Nil
  then show ?case by simp
next
  case (Cons c cs)
  obtain h1 st1 where 1: "rec (node_id c) cx cy st = Some (h1, st1)"
    using Cons.prems [of c cx cy st] by auto
  have "layoutChildren rec cs cx (cy + (h1 + GAP_Y)) (t + (h1 + GAP_Y)) st1 \<noteq> None"
    by (rule Cons.IH) (rule Cons.prems, simp)
  then show ?case using 1 by simp
qed

lemma layoutRoots_returns:
  assumes "\<And>r. r \<in> set rs \<Longrightarrow> layoutNode d ns cm (node_id r) 0 0 emptyMaps \<noteq> None"
  shows "layoutRoots d ns cm rs st \<noteq> None"
  using assms
proof (induction rs arbitrary: st)
  case Nil
  then show ?case by simp
next
  case (Cons r rs)
  have "layoutNode d ns cm (node_id r) 0 0 emptyMaps \<noteq> None"
    by (rule Cons.prems) simp
  then have "layoutNode d ns cm (node_id r) (pos_x (position r)) (pos_y (position r)) st \<noteq> None"
    by (rule layoutNode_anywhere)
  then obtain h st1 where
    1: "layoutNode d ns cm (node_id r) (pos_x (position r)) (pos_y (position r)) st = Some (h, st1)"
    by auto
  have "layoutRoots d ns cm rs st1 \<noteq> None"
    by (rule Cons.IH) (rule Cons.prems, simp)
  then show ?case using 1 by simp
qed

lemma layoutMaps_returns_iff:
  "layoutMaps d ns \<noteq> None
     \<longleftrightarrow> (\<forall>r\<in>set (filter isRoot ns).
            layoutNode d ns (buildChildrenMap ns) (node_id r) 0 0 emptyMaps \<noteq> None)"
proof
  assume "layoutMaps d ns \<noteq> None"
  then obtain st where
    "layoutRoots d ns (buildChildrenMap ns) (filter isRoot ns) emptyMaps = Some st"
    by (auto simp: layoutMaps_def emptyMaps_def)
  then show "\<forall>r\<in>set (filter isRoot ns).
       layoutNode d ns (buildChildrenMap ns) (node_id r) 0 0 emptyMaps \<noteq> None"
    using layoutRoots_visits by blast
next
  assume "\<forall>r\<in>set (filter isRoot ns).
       layoutNode d ns (buildChildrenMap ns) (node_id r) 0 0 emptyMaps \<noteq> None"
  then have "layoutRoots d ns (buildChildrenMap ns) (filter isRoot ns) emptyMaps \<noteq> None"
    by (intro layoutRoots_returns) blast
  then show "layoutMaps d ns \<noteq> None"
    by (simp add: layoutMaps_def emptyMaps_def)
qed

lemma computeSmartLayout_returns_iff:
  "computeSmartLayout d ns \<noteq> None \<longleftrightarrow> layoutMaps d ns \<noteq> None"
  by (simp add: computeSmartLayout_def split: option.splits)

lemma layoutMaps_returns_skeleton:
  assumes "map skeleton ns' = map skeleton ns" and "layoutMaps d ns \<noteq> None"
  shows "layoutMaps d ns' \<noteq> None"
  unfolding layoutMaps_returns_iff
proof
  fix r' assume r': "r' \<in> set (filter isRoot ns')"
  have "map node_id (filter isRoot ns') = map node_id (filter isRoot ns)"
    by (rule map_skeleton_ids [OF map_skeleton_roots [OF assms(1)]])
  then have "node_id ` set (filter isRoot ns') = node_id ` set (filter isRoot ns)"
    by (metis set_map)
  then have "node_id r' \<in> node_id ` set (filter isRoot ns)"
    using r' by blast
  then obtain r where r: "r \<in> set (filter isRoot ns)" "node_id r = node_id r'"
    by auto
  have "layoutNode d ns (buildChildrenMap ns) (node_id r) 0 0 emptyMaps \<noteq> None"
    using assms(2) r(1) unfolding layoutMaps_returns_iff by blast
  then show "layoutNode d ns' (buildChildrenMap ns') (node_id r') 0 0 emptyMaps \<noteq> None"
    unfolding layoutNode_skeleton [OF assms(1)] r(2) .
qed

lemma find_map_id:
  assumes "\<And>u. node_id (f u) = node_id u"
  shows "find (\<lambda>u. node_id u = i) (map f ns) = map_option f (find (\<lambda>u. node_id u = i) ns)"
  by (induction ns) (simp_all add: assms)

lemma childrenOf_map:
  assumes "\<And>u. parentId (f u) = parentId u"
  shows "childrenOf (buildChildrenMap (map f ns)) i = map f (childrenOf (buildChildrenMap ns) i)"
  unfolding childrenOf_build by (simp add: filter_map comp_def assms)

lemma layoutNode_collapse_returns:
  assumes N: "find (\<lambda>u. node_id u = n) ns = Some N" "\<not> truthyBool (collapsed N)"
  shows "layoutNode d ns (buildChildrenMap ns) i x y st \<noteq> None \<Longrightarrow>
     layoutNode d (map (toggleCollapsed n) ns) (buildChildrenMap (map (toggleCollapsed n) ns))
       i x' y' st' \<noteq> None"
proof (induction d arbitrary: i x y st x' y' st')
  case 0
  then show ?case by simp
next
  case (Suc d)
  let ?t = "toggleCollapsed n"
  let ?cm = "buildChildrenMap ns" and ?cmt = "buildChildrenMap (map (toggleCollapsed n) ns)"
  have f: "find (\<lambda>u. node_id u = i) (map ?t ns) = map_option ?t (find (\<lambda>u. node_id u = i) ns)"
    by (rule find_map_id) simp
  have ch: "childrenOf ?cmt i = map ?t (childrenOf ?cm i)"
    by (rule childrenOf_map) simp
  show ?case
  proof (cases "find (\<lambda>u. node_id u = i) ns")
    case None
    then show ?thesis using f by (simp add: layoutNode_missing)
  next
    case (Some node)
    then have ft: "find (\<lambda>u. node_id u = i) (map ?t ns) = Some (?t node)"
      using f by simp
    show ?thesis
    proof (cases "truthyBool (collapsed (?t node)) \<or> childrenOf ?cmt i = []")
      case True
      then show ?thesis using ft by (simp add: layoutNode_leaf)
    next
      case False
      have ni: "i \<noteq> n"
      proof
        assume "i = n"
        then have "node = N" using Some N(1) by simp
        then have "truthyBool (collapsed (?t node))"
          using N \<open>i = n\<close> find_in_set(2) [OF N(1)] by (simp add: toggle_collapses)
        then show False using False by simp
      qed
      have "node_id node = i" using find_in_set(2) [OF Some] .
      then have tn: "?t node = node" using ni by (simp add: toggle_other)
      have leaf: "\<not> (truthyBool (collapsed node) \<or> childrenOf ?cm i = [])"
        using False ch tn by simp
      obtain h st1 where run: "layoutNode (Suc d) ns ?cm i x y st = Some (h, st1)"
        using Suc.prems by auto
      have ok: "layoutNode d ns ?cm (node_id c) 0 0 emptyMaps \<noteq> None"
        if "c \<in> set (childrenOf ?cm i)" for c
        using layoutNode_inner_run(3) [OF run Some _ that] leaf by (simp add: leafAt_def)
      have "layoutChildren (layoutNode d (map ?t ns) ?cmt) (childrenOf ?cmt i) (x' + INDENT_X)
          (y' + getNodeHeight (?t node) + GAP_Y) (getNodeHeight (?t node) + GAP_Y)
          ((fst st')(i \<mapsto> \<lparr>pos_x = x', pos_y = y'\<rparr>), (snd st')(i \<mapsto> getNodeHeight (?t node)))
          \<noteq> None"
      proof (rule layoutChildren_returns)
        fix c x y st
        assume "c \<in> set (childrenOf ?cmt i)"
        then obtain c0 where c0: "c0 \<in> set (childrenOf ?cm i)" "c = ?t c0"
          unfolding ch by auto
        have "layoutNode d (map ?t ns) ?cmt (node_id c0) x y st \<noteq> None"
          by (rule Suc.IH [OF ok [OF c0(1)]])
        then show "layoutNode d (map ?t ns) ?cmt (node_id c) x y st \<noteq> None"
          using c0(2) by simp
      qed
      then show ?thesis
        using ft False by (simp add: layoutNode_inner)
    qed
  qed
qed

lemma collapse_returns:
  assumes N: "find (\<lambda>u. node_id u = n) ns = Some N" "\<not> truthyBool (collapsed N)"
    and "computeSmartLayout d ns \<noteq> None"
  shows "handleToggleCollapse d n ns \<noteq> None"
  unfolding handleToggleCollapse_def computeSmartLayout_returns_iff layoutMaps_returns_iff
proof
  let ?t = "toggleCollapsed n"
  fix r' assume "r' \<in> set (filter isRoot (map ?t ns))"
  then obtain r where r: "r \<in> set (filter isRoot ns)" "r' = ?t r"
    by auto
  have "layoutNode d ns (buildChildrenMap ns) (node_id r) 0 0 emptyMaps \<noteq> None"
    using assms(3) r(1) unfolding computeSmartLayout_returns_iff layoutMaps_returns_iff by blast
  then have "layoutNode d (map ?t ns) (buildChildrenMap (map ?t ns)) (node_id r) 0 0 emptyMaps
      \<noteq> None"
    by (rule layoutNode_collapse_returns [OF N])
  then show "layoutNode d (map ?t ns) (buildChildrenMap (map ?t ns)) (node_id r') 0 0 emptyMaps
      \<noteq> None"
    using r(2) by simp
qed

lemma visitQueue_Suc:
  "visitQueue k ns q V = Some r \<Longrightarrow> visitQueue (Suc k) ns q V = Some r"
proof (induction k ns q V rule: visitQueue.induct)
  case (1 k ns V)
  then show ?case by simp
next
  case (2 ns current queue V)
  then show ?case by simp
next
  case (3 k ns current queue V)
  let ?ch = "filter (\<lambda>n. parentId n = Some (node_id current)) ns"
  show ?case
  proof (cases "node_id current \<in> V \<and> \<not> truthyBool (collapsed current)")
    case True
    then have "visitQueue k ns (queue @ ?ch) (V \<union> set (map node_id ?ch)) = Some r"
      using "3.prems" by simp
    then have "visitQueue (Suc k) ns (queue @ ?ch) (V \<union> set (map node_id ?ch)) = Some r"
      by (rule "3.IH"(1) [OF True])
    then show ?thesis using True by simp
  next
    case False
    then have "visitQueue k ns queue V = Some r"
      using "3.prems" by auto
    then have "visitQueue (Suc k) ns queue V = Some r"
      by (rule "3.IH"(2) [OF False])
    then show ?thesis using False by auto
  qed
qed

lemma visitQueue_collapse_returns:
  "visitQueue k ns q V \<noteq> None \<Longrightarrow> set q \<subseteq> set ns \<Longrightarrow> node_id ` set q \<subseteq> V \<Longrightarrow>
     subseq q' q \<Longrightarrow> \<forall>u\<in>set ns. node_id u = n \<longrightarrow> \<not> truthyBool (collapsed u) \<Longrightarrow>
     visitQueue k (map (toggleCollapsed n) ns) (map (toggleCollapsed n) q') V' \<noteq> None"
proof (induction k ns q V arbitrary: q' V' rule: visitQueue.induct)
  case (1 k ns V)
  then show ?case by (auto dest: list_emb_Nil2)
next
  case (2 ns current queue V)
  then show ?case by simp
next
  case (3 k ns current queue V)
  let ?t = "toggleCollapsed n"
  let ?ch = "filter (\<lambda>u. parentId u = Some (node_id current)) ns"
  have cur: "node_id current \<in> V" "current \<in> set ns" using "3.prems"(2,3) by simp_all
  have cht: "filter (\<lambda>u. parentId u = Some (node_id current)) (map ?t ns) = map ?t ?ch"
    by (simp add: filter_map comp_def)
  show ?case
  proof (cases q')
    case Nil
    then show ?thesis by simp
  next
    case (Cons c' r')
    show ?thesis
    proof (cases "c' = current")
      case False
      then have s: "subseq q' queue"
        using "3.prems"(4) Cons by simp
      have "visitQueue k (map ?t ns) (map ?t q') V' \<noteq> None"
      proof (cases "node_id current \<in> V \<and> \<not> truthyBool (collapsed current)")
        case True
        have "subseq q' (queue @ ?ch)" using s by (rule subseq_rev_drop_many)
        then show ?thesis
          using True "3.prems" by (intro "3.IH"(1)) auto
      next
        case F: False
        show ?thesis
          using F "3.prems" s by (intro "3.IH"(2)) auto
      qed
      then obtain r where "visitQueue k (map ?t ns) (map ?t q') V' = Some r" by auto
      then have "visitQueue (Suc k) (map ?t ns) (map ?t q') V' = Some r"
        by (rule visitQueue_Suc)
      then show ?thesis by simp
    next
      case True
      then have s: "subseq r' queue"
        using "3.prems"(4) Cons by simp
      have s2: "subseq r' (queue @ ?ch)" using s by (rule subseq_rev_drop_many)
      show ?thesis
      proof (cases "node_id current \<in> V' \<and> \<not> truthyBool (collapsed (?t current))")
        case open': True
        have nc: "\<not> truthyBool (collapsed current)"
        proof (cases "node_id current = n")
          case True
          then show ?thesis using "3.prems"(5) cur(2) by blast
        next
          case False
          then show ?thesis using open' by (simp add: toggle_other)
        qed
        have "subseq (r' @ ?ch) (queue @ ?ch)"
          using s by (intro list_emb_append_mono) simp_all
        then have "visitQueue k (map ?t ns) (map ?t (r' @ ?ch)) (V' \<union> set (map node_id (map ?t ?ch)))
            \<noteq> None"
          using nc cur "3.prems" by (intro "3.IH"(1)) auto
        then show ?thesis
          unfolding Cons True using open' by (simp add: cht)
      next
        case closed': False
        have "visitQueue k (map ?t ns) (map ?t r') V' \<noteq> None"
        proof (cases "node_id current \<in> V \<and> \<not> truthyBool (collapsed current)")
          case True
          show ?thesis
            using True "3.prems" s2 by (intro "3.IH"(1)) auto
        next
          case F: False
          show ?thesis
            using F "3.prems" s by (intro "3.IH"(2)) auto
        qed
        then show ?thesis
          unfolding Cons True using closed' by auto
      qed
    qed
  qed
qed

lemma getNodeHeight_cong:
  "contentMinimized u' = contentMinimized u \<Longrightarrow> nodeType u' = nodeType u \<Longrightarrow> data u' = data u \<Longrightarrow>
     getNodeHeight u' = getNodeHeight u"
  by (simp add: getNodeHeight_def hasLearningPoints_def hasSummary_def)

lemma getNodeHeight_toggle [simp]: "getNodeHeight (toggleCollapsed n u) = getNodeHeight u"
  by (rule getNodeHeight_cong) simp_all

lemma skeleton_toggle:
  "skeleton (toggleCollapsed n u)
     = (\<lambda>(i, p, ty, c, h). (i, p, ty, if i = n then \<not> c else c, h)) (skeleton u)"
  by (cases "node_id u = n") (simp_all add: skeleton_def toggle_other toggle_collapses)

lemma map_skeleton_toggle:
  assumes "map skeleton ns' = map skeleton ns"
  shows "map skeleton (map (toggleCollapsed n) ns') = map skeleton (map (toggleCollapsed n) ns)"
proof -
  let ?F = "\<lambda>(i, p, ty, c, h). (i, p, ty, if i = n then \<not> c else c, h)"
  have a: "map skeleton (map (toggleCollapsed n) xs) = map ?F (map skeleton xs)" for xs
    by (simp add: skeleton_toggle comp_def)
  show ?thesis unfolding a assms ..
qed

lemma skeleton_toggle_twice:
  "skeleton (toggleCollapsed n (toggleCollapsed n u)) = skeleton u"
  by (simp add: skeleton_toggle) (simp add: skeleton_def)

lemma visibleNodes_ids:
  assumes "visibleSetOf k ns = Some V"
  shows "visibleNodes k ns = Some (filter (\<lambda>u. node_id u \<in> V) ns)"
    and "map node_id (filter (\<lambda>u. node_id u \<in> V) ns) = filter (\<lambda>i. i \<in> V) (map node_id ns)"
  using assms by (simp_all add: visibleNodes_def filter_map comp_def)

lemma visibleNodes_Some:
  assumes "visibleNodes k ns = Some vis"
  obtains V where "visibleSetOf k ns = Some V" and "vis = filter (\<lambda>u. node_id u \<in> V) ns"
  using assms by (auto simp: visibleNodes_def split: option.splits)

text \<open>
  C3, as stated, fails on node sets in which a strict descendant is a root itself:
  the resolver seeds its queue with every root-typed node, so a root-typed child
  stays in the output when its parent is collapsed.
\<close>

theorem C3_root_typed_child_counterexample:
  "parentId (mkNode ''c'' (Some ''r'') Root False) = Some ''r''
   \<and> map node_id (the (visibleNodes 5
         [mkNode ''r'' None Root False, mkNode ''c'' (Some ''r'') Root False])) = [''r'', ''c'']
   \<and> map (\<lambda>u. truthyBool (collapsed u)) (the (handleToggleCollapse 3 ''r''
         [mkNode ''r'' None Root False, mkNode ''c'' (Some ''r'') Root False])) = [True, False]
   \<and> map node_id (the (visibleNodes 5 (the (handleToggleCollapse 3 ''r''
         [mkNode ''r'' None Root False, mkNode ''c'' (Some ''r'') Root False])))) = [''r'', ''c'']"
  by code_simp

text \<open>
  C3, amended: in a node set with pairwise distinct ids that the layout engine can
  lay out, let \<open>n\<close> be the id of an expanded node none of whose strict descendants is
  a root (root-typed or without parent). Then toggling \<open>n\<close> returns, the resolver
  returns on the result, and its output is the former output without exactly the
  strict descendants of \<open>n\<close>; toggling \<open>n\<close> again returns and the resolver's
  output has the very ids it had at the start.
\<close>

theorem C3_collapse_round_trip:
  assumes dist: "distinct (map node_id nodes)"
    and N: "find (\<lambda>u. node_id u = n) nodes = Some N" "\<not> truthyBool (collapsed N)"
    and noroot: "\<forall>u\<in>set nodes. strictDescendant nodes n (node_id u) \<longrightarrow> \<not> isRoot u"
    and lay: "computeSmartLayout d nodes \<noteq> None"
    and vis: "visibleNodes k nodes = Some vis"
  shows "\<exists>nodes1 nodes2 vis1 vis2.
       handleToggleCollapse d n nodes = Some nodes1
     \<and> visibleNodes k nodes1 = Some vis1
     \<and> map node_id vis1 = filter (\<lambda>i. \<not> strictDescendant nodes n i) (map node_id vis)
     \<and> handleToggleCollapse d n nodes1 = Some nodes2
     \<and> visibleNodes k nodes2 = Some vis2
     \<and> map node_id vis2 = map node_id vis"
proof -
  let ?t = "toggleCollapsed n"
  obtain V where V: "visibleSetOf k nodes = Some V" and visV: "vis = filter (\<lambda>u. node_id u \<in> V) nodes"
    using vis by (rule visibleNodes_Some)
  have Vr: "V = node_id ` {u. underOpenAncestors nodes u}"
    by (rule visibleSetOf_reach [OF V])
  \<comment> \<open>the first toggle\<close>
  obtain nodes1 where t1: "handleToggleCollapse d n nodes = Some nodes1"
    using collapse_returns [OF N lay] by auto
  have sk1: "map skeleton nodes1 = map skeleton (map ?t nodes)"
    using t1 unfolding handleToggleCollapse_def by (rule computeSmartLayout_skeleton)
  have ids1: "map node_id nodes1 = map node_id nodes"
    using map_skeleton_ids [OF sk1] by (simp add: comp_def)
  have Nin: "N \<in> set nodes" "node_id N = n"
    using find_in_set [OF N(1)] by simp_all
  have more: "\<forall>u\<in>set nodes. node_id u = n \<longrightarrow> \<not> truthyBool (collapsed u)"
  proof (intro ballI impI)
    fix u assume "u \<in> set nodes" "node_id u = n"
    then have "u = N" using Nin by (intro distinct_ids_eq [OF dist]) simp_all
    then show "\<not> truthyBool (collapsed u)" using N(2) by simp
  qed
  have "visitQueue k (map ?t nodes) (map ?t (filter isRoot nodes))
      (set (map node_id (filter isRoot (map ?t nodes)))) \<noteq> None"
  proof (rule visitQueue_collapse_returns [OF _ _ _ _ more])
    show "visitQueue k nodes (filter isRoot nodes) (set (map node_id (filter isRoot nodes))) \<noteq> None"
      using V by (simp add: visibleSetOf_def)
  qed simp_all
  then have "visibleSetOf k (map ?t nodes) \<noteq> None"
    by (simp add: visibleSetOf_def filter_map comp_def)
  then obtain V1 where V1: "visibleSetOf k (map ?t nodes) = Some V1"
    by auto
  have "V1 = node_id ` {w. underOpenAncestors (map ?t nodes) w}"
    by (rule visibleSetOf_reach [OF V1])
  also have "\<dots> = node_id ` {u. underOpenAncestors nodes u} - {m. strictDescendant nodes n m}"
    using noroot by (intro collapse_visible [OF dist N]) blast
  finally have V1eq: "V1 = V - {m. strictDescendant nodes n m}"
    unfolding Vr .
  have V1': "visibleSetOf k nodes1 = Some V1"
    using visibleSetOf_skeleton [OF sk1] V1 by simp
  let ?vis1 = "filter (\<lambda>u. node_id u \<in> V1) nodes1"
  have v1: "visibleNodes k nodes1 = Some ?vis1"
    by (rule visibleNodes_ids(1) [OF V1'])
  have "map node_id ?vis1 = filter (\<lambda>i. i \<in> V1) (map node_id nodes)"
    unfolding visibleNodes_ids(2) [OF V1'] ids1 ..
  also have "\<dots> = filter (\<lambda>i. \<not> strictDescendant nodes n i) (filter (\<lambda>i. i \<in> V) (map node_id nodes))"
    unfolding V1eq by (simp add: conj_commute)
  also have "filter (\<lambda>i. i \<in> V) (map node_id nodes) = map node_id vis"
    unfolding visV visibleNodes_ids(2) [OF V] ..
  finally have i1: "map node_id ?vis1 = filter (\<lambda>i. \<not> strictDescendant nodes n i) (map node_id vis)" .
  \<comment> \<open>the second toggle\<close>
  have "map skeleton (map ?t nodes1) = map skeleton (map ?t (map ?t nodes))"
    by (rule map_skeleton_toggle [OF sk1])
  then have sk2: "map skeleton (map ?t nodes1) = map skeleton nodes"
    by (simp add: comp_def skeleton_toggle_twice)
  have "layoutMaps d nodes \<noteq> None"
    using lay unfolding computeSmartLayout_returns_iff .
  then have "layoutMaps d (map ?t nodes1) \<noteq> None"
    by (rule layoutMaps_returns_skeleton [OF sk2])
  then obtain nodes2 where t2: "handleToggleCollapse d n nodes1 = Some nodes2"
    unfolding handleToggleCollapse_def using computeSmartLayout_returns_iff by blast
  have "map skeleton nodes2 = map skeleton (map ?t nodes1)"
    using t2 unfolding handleToggleCollapse_def by (rule computeSmartLayout_skeleton)
  then have sk3: "map skeleton nodes2 = map skeleton nodes"
    using sk2 by simp
  have V2: "visibleSetOf k nodes2 = Some V"
    using visibleSetOf_skeleton [OF sk3] V by simp
  let ?vis2 = "filter (\<lambda>u. node_id u \<in> V) nodes2"
  have v2: "visibleNodes k nodes2 = Some ?vis2"
    by (rule visibleNodes_ids(1) [OF V2])
  have i2: "map node_id ?vis2 = map node_id vis"
    unfolding visV visibleNodes_ids(2) [OF V2] visibleNodes_ids(2) [OF V]
      map_skeleton_ids [OF sk3] ..
  show ?thesis
    using t1 v1 i1 t2 v2 i2 by blast
qed


lemma strictDescendant_has_parent:
  "strictDescendant ns a m \<Longrightarrow> m \<in> set (map node_id (filter (\<lambda>c. parentId c \<noteq> None) ns))"
  by (induction rule: strictDescendant.induct) auto

theorem C3_collapse_round_trip_witness:
  "distinct (map node_id exTree)
   \<and> find (\<lambda>u. node_id u = ''a'') exTree = Some (mkNode ''a'' (Some ''r'') Chapter False)
   \<and> \<not> truthyBool (collapsed (mkNode ''a'' (Some ''r'') Chapter False))
   \<and> map node_id (filter isRoot exTree) = [''r'']
   \<and> map node_id (filter (\<lambda>c. parentId c \<noteq> None) exTree) = [''a'', ''b'']
   \<and> computeSmartLayout 3 exTree \<noteq> None
   \<and> map node_id (the (visibleNodes 5 exTree)) = [''r'', ''a'', ''b'']
   \<and> map node_id (the (visibleNodes 5 (the (handleToggleCollapse 3 ''a'' exTree)))) = [''r'', ''a'']
   \<and> map node_id (the (visibleNodes 5
         (the (handleToggleCollapse 3 ''a'' (the (handleToggleCollapse 3 ''a'' exTree))))))
       = map node_id (the (visibleNodes 5 exTree))"
proof -
  have 1: "distinct (map node_id exTree)"
    by code_simp
  have 2: "find (\<lambda>u. node_id u = ''a'') exTree = Some (mkNode ''a'' (Some ''r'') Chapter False)"
    by code_simp
  have 3: "\<not> truthyBool (collapsed (mkNode ''a'' (Some ''r'') Chapter False))"
    by code_simp
  have roots: "map node_id (filter isRoot exTree) = [''r'']"
    by code_simp
  have kids: "map node_id (filter (\<lambda>c. parentId c \<noteq> None) exTree) = [''a'', ''b'']"
    by code_simp
  have 4: "\<forall>u\<in>set exTree. strictDescendant exTree ''a'' (node_id u) \<longrightarrow> \<not> isRoot u"
  proof (intro ballI impI notI)
    fix u assume u: "u \<in> set exTree" "strictDescendant exTree ''a'' (node_id u)" "isRoot u"
    have "node_id u \<in> set (map node_id (filter isRoot exTree))"
      using u(1,3) by simp
    then have "node_id u = ''r''" unfolding roots by simp
    moreover have "node_id u \<in> set [''a'', ''b'']"
      using strictDescendant_has_parent [OF u(2)] unfolding kids .
    ultimately show False by simp
  qed
  have 5: "computeSmartLayout 3 exTree \<noteq> None"
    by code_simp
  have "visibleNodes 5 exTree \<noteq> None"
    by code_simp
  then obtain vis where 6: "visibleNodes 5 exTree = Some vis"
    by blast
  have 7: "map node_id (the (visibleNodes 5 exTree)) = [''r'', ''a'', ''b'']"
    by code_simp
  have 8: "map node_id (the (visibleNodes 5 (the (handleToggleCollapse 3 ''a'' exTree))))
      = [''r'', ''a'']"
    by code_simp
  obtain nodes1 nodes2 vis2 where
    "handleToggleCollapse 3 ''a'' exTree = Some nodes1"
    "handleToggleCollapse 3 ''a'' nodes1 = Some nodes2"
    "visibleNodes 5 nodes2 = Some vis2" "map node_id vis2 = map node_id vis"
    using C3_collapse_round_trip [OF 1 2 3 4 5 6] by blast
  then have 9: "map node_id (the (visibleNodes 5
         (the (handleToggleCollapse 3 ''a'' (the (handleToggleCollapse 3 ''a'' exTree))))))
       = map node_id (the (visibleNodes 5 exTree))"
    using 6 by simp
  show ?thesis
    using 1 2 3 roots kids 5 7 8 9 by blast
qed

section \<open>Adding a child to a collapsed parent\<close>

lemma handleAddChild_collapsed_shape:
  assumes "find (\<lambda>n. node_id n = pid) nodes = Some parent" and "truthyBool (collapsed parent)"
    and "handleAddChild d newId pid nodes = Some nodes'"
  obtains st st2 where
    "nodes' = map (\<lambda>u. applyLayout st2 (toggleCollapsed pid (applyLayout st u)))
       (nodes @ [newChildNode newId pid parent])"
proof -
  let ?new = "newChildNode newId pid parent"
  from assms obtain nodes1 where
    1: "computeSmartLayout d (nodes @ [?new]) = Some nodes1" and
    2: "handleToggleCollapse d pid nodes1 = Some nodes'"
    by (auto simp: handleAddChild_def split: option.splits)
  from 1 obtain st where n1: "nodes1 = map (applyLayout st) (nodes @ [?new])"
    by (rule computeSmartLayout_Some)
  from 2 have "computeSmartLayout d (map (toggleCollapsed pid) nodes1) = Some nodes'"
    by (simp add: handleToggleCollapse_def)
  then obtain st2 where "nodes' = map (applyLayout st2) (map (toggleCollapsed pid) nodes1)"
    by (rule computeSmartLayout_Some)
  then have "nodes' = map (\<lambda>u. applyLayout st2 (toggleCollapsed pid (applyLayout st u)))
       (nodes @ [?new])"
    unfolding n1 by simp
  then show thesis by (rule that)
qed

lemma find_append_Some:
  "find P xs = Some x \<Longrightarrow> find P (xs @ ys) = Some x"
  by (induction xs) (auto split: if_splits)

section \<open>A collapsed node is itself visible and laid out\<close>

lemma heightsOk_update:
  "heightsOk ns st \<Longrightarrow> find (\<lambda>n. node_id n = i) ns = Some node \<Longrightarrow>
     heightsOk ns ((fst st)(i \<mapsto> p), (snd st)(i \<mapsto> getNodeHeight node))"
  by (auto simp: heightsOk_def)

lemma layoutChildren_heights:
  assumes "\<And>i x y st r. rec i x y st = Some r \<Longrightarrow> heightsOk ns st \<Longrightarrow> heightsOk ns (snd r)"
  shows "layoutChildren rec cs cx cy t st = Some (h, st') \<Longrightarrow> heightsOk ns st \<Longrightarrow> heightsOk ns st'"
proof (induction cs arbitrary: cy t st)
  case Nil
  then show ?case by simp
next
  case (Cons c cs)
  from Cons.prems(1) obtain h1 st1 where
    1: "rec (node_id c) cx cy st = Some (h1, st1)" and
    2: "layoutChildren rec cs cx (cy + (h1 + GAP_Y)) (t + (h1 + GAP_Y)) st1 = Some (h, st')"
    by (rule layoutChildren_step)
  have "heightsOk ns st1" using assms [OF 1 Cons.prems(2)] by simp
  then show ?case by (rule Cons.IH [OF 2])
qed

lemma layoutNode_heights:
  "layoutNode d ns cm i x y st = Some r \<Longrightarrow> heightsOk ns st \<Longrightarrow> heightsOk ns (snd r)"
proof (induction d arbitrary: i x y st r)
  case 0
  then show ?case by simp
next
  case (Suc d)
  show ?case
  proof (cases "find (\<lambda>n. node_id n = i) ns")
    case None
    then show ?thesis using Suc.prems by (auto simp: layoutNode_missing)
  next
    case (Some node)
    let ?s1 = "((fst st)(i \<mapsto> \<lparr>pos_x = x, pos_y = y\<rparr>), (snd st)(i \<mapsto> getNodeHeight node))"
    have g: "heightsOk ns ?s1" by (rule heightsOk_update [OF Suc.prems(2) Some])
    show ?thesis
    proof (cases "leafAt cm i node")
      case True
      then show ?thesis
        using Suc.prems(1) Some g by (auto simp: leafAt_def layoutNode_leaf)
    next
      case False
      obtain h st' where r: "r = (h, st')" by (cases r)
      have l: "layoutChildren (layoutNode d ns cm) (childrenOf cm i) (x + INDENT_X)
         (y + getNodeHeight node + GAP_Y) (getNodeHeight node + GAP_Y) ?s1 = Some (h, st')"
        using Suc.prems(1) Some False unfolding r by (simp add: layoutNode_inner leafAt_def)
      have "heightsOk ns st'"
        by (rule layoutChildren_heights [OF Suc.IH l g])
      then show ?thesis by (simp add: r)
    qed
  qed
qed

lemma layoutRoots_heights:
  "layoutRoots d ns cm rs st = Some st' \<Longrightarrow> heightsOk ns st \<Longrightarrow> heightsOk ns st'"
proof (induction rs arbitrary: st)
  case Nil
  then show ?case by simp
next
  case (Cons r rs)
  from Cons.prems(1) obtain h st1 where
    1: "layoutNode d ns cm (node_id r) (pos_x (position r)) (pos_y (position r)) st = Some (h, st1)"
    and 2: "layoutRoots d ns cm rs st1 = Some st'"
    by (rule layoutRoots_step)
  have "heightsOk ns st1" using layoutNode_heights [OF 1 Cons.prems(2)] by simp
  then show ?case by (rule Cons.IH [OF 2])
qed

lemma layoutRoots_dom:
  "layoutRoots d ns cm rs st = Some st' \<Longrightarrow> v \<in> dom (fst st') \<Longrightarrow>
     v \<in> dom (fst st) \<or> (\<exists>r\<in>set rs. v \<in> visitedBy d ns cm (node_id r))"
proof (induction rs arbitrary: st)
  case Nil
  then show ?case by simp
next
  case (Cons r rs)
  from Cons.prems(1) obtain h st1 where
    1: "layoutNode d ns cm (node_id r) (pos_x (position r)) (pos_y (position r)) st = Some (h, st1)"
    and 2: "layoutRoots d ns cm rs st1 = Some st'"
    by (rule layoutRoots_step)
  have "v \<in> dom (fst st1) \<or> (\<exists>r\<in>set rs. v \<in> visitedBy d ns cm (node_id r))"
    by (rule Cons.IH [OF 2 Cons.prems(2)])
  then show ?case
    unfolding visitedBy_run(1) [OF 1] by auto
qed

lemma reach_visited:
  assumes dist: "distinct (map node_id ns)"
    and run: "layoutMaps d ns = Some st"
  shows "underOpenAncestors ns u \<Longrightarrow> node_id u \<in> dom (fst st)"
  unfolding underOpenAncestors_def
proof (induction rule: reach.induct)
  let ?cm = "buildChildrenMap ns" and ?rs = "filter isRoot ns"
  have roots: "layoutRoots d ns ?cm ?rs emptyMaps = Some st"
    using run by (simp add: layoutMaps_def emptyMaps_def)
  have root_visited: "node_id r \<in> dom (fst st)" if "r \<in> set ?rs" for r
  proof -
    have v: "visitedBy d ns ?cm (node_id r) \<subseteq> dom (fst st)"
      and ok: "layoutNode d ns ?cm (node_id r) 0 0 emptyMaps \<noteq> None"
      using layoutRoots_visits [OF roots that] by simp_all
    have "find (\<lambda>n. node_id n = node_id r) ns \<noteq> None"
      using that by (intro find_member) simp
    then have "node_id r \<in> visitedBy d ns ?cm (node_id r)"
      by (rule self_visited [OF ok])
    then show ?thesis using v by auto
  qed
  {
    case (start u)
    then show ?case by (rule root_visited)
  next
    case (step p c)
    show ?case
    proof (cases "isRoot c")
      case True
      then show ?thesis using step.hyps(3) by (intro root_visited) simp
    next
      case False
      then have "truthyString (parentId c)" by (simp add: isRoot_def)
      then have cin: "c \<in> set (childrenOf ?cm (node_id p))"
        using step.hyps(3,4) by (simp add: childrenOf_build)
      have pin: "p \<in> set ns"
        using step.hyps(1) by (rule reach_in_set) auto
      have fp: "find (\<lambda>n. node_id n = node_id p) ns = Some p"
        by (rule find_distinct [OF dist pin])
      have "node_id p \<in> dom (fst emptyMaps)
          \<or> (\<exists>r\<in>set ?rs. node_id p \<in> visitedBy d ns ?cm (node_id r))"
        by (rule layoutRoots_dom [OF roots step.IH])
      then obtain r where r: "r \<in> set ?rs" "node_id p \<in> visitedBy d ns ?cm (node_id r)"
        by (auto simp: emptyMaps_def)
      have vr: "visitedBy d ns ?cm (node_id r) \<subseteq> dom (fst st)"
        and okr: "layoutNode d ns ?cm (node_id r) 0 0 emptyMaps \<noteq> None"
        using layoutRoots_visits [OF roots r(1)] by simp_all
      have okp: "layoutNode d ns ?cm (node_id p) 0 0 emptyMaps \<noteq> None"
        by (rule visited_ok [OF okr r(2)])
      then obtain d' where d: "d = Suc d'" by (cases d) auto
      obtain h w where w: "layoutNode (Suc d') ns ?cm (node_id p) 0 0 emptyMaps = Some (h, w)"
        using okp unfolding d by auto
      have leaf: "\<not> leafAt ?cm (node_id p) p"
        using step.hyps(2) cin by (auto simp: leafAt_def)
      have okc: "layoutNode d' ns ?cm (node_id c) 0 0 emptyMaps \<noteq> None"
        by (rule layoutNode_inner_run(3) [OF w fp leaf cin])
      have "find (\<lambda>n. node_id n = node_id c) ns \<noteq> None"
        using step.hyps(3) by (rule find_member)
      then have "node_id c \<in> visitedBy d' ns ?cm (node_id c)"
        by (rule self_visited [OF okc])
      then have "node_id c \<in> visitedBy (Suc d') ns ?cm (node_id p)"
        unfolding visitedBy_inner [OF w fp leaf] using cin by blast
      then have "node_id c \<in> visitedBy d ns ?cm (node_id r)"
        using visited_closed [OF okr r(2)] unfolding d by blast
      then show ?thesis using vr by blast
    qed
  }
qed


lemma applyLayout_visited:
  assumes "fst st (node_id u) = Some p" and "snd st (node_id u) = Some h" and "h \<noteq> 0"
  shows "applyLayout st u = u\<lparr>position := p, height := Some h\<rparr>"
  using assms by (simp add: applyLayout_def)

text \<open>
  C10, as stated, fails in two ways. A collapsed node whose parent id names no node
  has no ancestor at all, collapsed or not, yet the resolver never comes to it and
  the layout engine leaves it as it was. And when two nodes share an id, the engine
  looks at the first of them only: below an expanded node \<open>a\<close> that has a collapsed
  namesake earlier in the list, the node \<open>c\<close> is in the resolver's output but gets
  no position and no height.
\<close>

theorem C10_orphan_and_namesake_counterexample:
  "truthyBool (collapsed (mkNode ''o'' (Some ''gone'') Chapter True))
   \<and> visibleNodes 5 [mkNode ''o'' (Some ''gone'') Chapter True] = Some []
   \<and> computeSmartLayout 3 [mkNode ''o'' (Some ''gone'') Chapter True]
       = Some [mkNode ''o'' (Some ''gone'') Chapter True]
   \<and> map node_id (the (visibleNodes 5
         [mkNode ''a'' (Some ''gone'') Chapter True, mkNode ''r'' None Root False,
          mkNode ''a'' (Some ''r'') Chapter False, mkNode ''c'' (Some ''a'') Subchapter True]))
       = [''a'', ''r'', ''a'', ''c'']
   \<and> map height (the (computeSmartLayout 3
         [mkNode ''a'' (Some ''gone'') Chapter True, mkNode ''r'' None Root False,
          mkNode ''a'' (Some ''r'') Chapter False, mkNode ''c'' (Some ''a'') Subchapter True]))
       = [Some 120, Some 180, Some 120, None]"
  by code_simp

text \<open>
  C10, amended: in a node set with pairwise distinct ids, a node that is a root or
  hangs from a root through a chain of non-collapsed ancestors is, whether or not it
  is collapsed itself, in the resolver's output when the resolver returns, and a
  layout pass that returns has written a position for it and gives it that position
  and the height of the rule table.
\<close>

theorem C10_collapsed_node_itself:
  assumes dist: "distinct (map node_id nodes)"
    and open_path: "underOpenAncestors nodes u"
    and vis: "visibleNodes k nodes = Some vis"
    and lay: "computeSmartLayout d nodes = Some nodes'"
  shows "u \<in> set vis
     \<and> (\<exists>st. layoutMaps d nodes = Some st \<and> nodes' = map (applyLayout st) nodes
           \<and> node_id u \<in> dom (fst st)
           \<and> applyLayout st u
               = u\<lparr>position := the (fst st (node_id u)), height := Some (getNodeHeight u)\<rparr>)"
proof -
  have uin: "u \<in> set nodes"
    by (rule underOpenAncestors_in_set [OF open_path])
  obtain V where V: "visibleSetOf k nodes = Some V" and visV: "vis = filter (\<lambda>u. node_id u \<in> V) nodes"
    using vis by (rule visibleNodes_Some)
  have "node_id u \<in> V"
    unfolding visibleSetOf_reach [OF V] using open_path by blast
  then have 1: "u \<in> set vis"
    unfolding visV using uin by simp
  obtain st where st: "layoutMaps d nodes = Some st" and n: "nodes' = map (applyLayout st) nodes"
    using lay by (rule computeSmartLayout_Some)
  have roots: "layoutRoots d nodes (buildChildrenMap nodes) (filter isRoot nodes) emptyMaps = Some st"
    using st by (simp add: layoutMaps_def emptyMaps_def)
  have v: "node_id u \<in> dom (fst st)"
    by (rule reach_visited [OF dist st open_path])
  then obtain p where p: "fst st (node_id u) = Some p" by auto
  have good: "goodMaps st"
    by (rule layoutRoots_good [OF roots goodMaps_empty])
  then have "node_id u \<in> dom (snd st)" using v by (simp add: goodMaps_def)
  then obtain h where h: "snd st (node_id u) = Some h" by auto
  have h0: "h \<noteq> 0" using good h unfolding goodMaps_def by blast
  have "heightsOk nodes emptyMaps" by (simp add: heightsOk_def emptyMaps_def)
  then have "heightsOk nodes st" by (rule layoutRoots_heights [OF roots])
  then obtain node where "find (\<lambda>n. node_id n = node_id u) nodes = Some node" "h = getNodeHeight node"
    using h unfolding heightsOk_def by blast
  then have hu: "h = getNodeHeight u"
    using find_distinct [OF dist uin] by simp
  have "applyLayout st u = u\<lparr>position := the (fst st (node_id u)), height := Some (getNodeHeight u)\<rparr>"
    using applyLayout_visited [OF p h h0] p hu by simp
  then show ?thesis
    using 1 st n v by blast
qed

theorem C10_collapsed_node_itself_witness:
  "distinct (map node_id
      [mkNode ''r'' None Root False, mkNode ''a'' (Some ''r'') Chapter True,
       mkNode ''b'' (Some ''a'') Subchapter False])
   \<and> truthyBool (collapsed (mkNode ''a'' (Some ''r'') Chapter True))
   \<and> isRoot (mkNode ''r'' None Root False)
   \<and> \<not> truthyBool (collapsed (mkNode ''r'' None Root False))
   \<and> parentId (mkNode ''a'' (Some ''r'') Chapter True) = Some (node_id (mkNode ''r'' None Root False))
   \<and> map node_id (the (visibleNodes 5
        [mkNode ''r'' None Root False, mkNode ''a'' (Some ''r'') Chapter True,
         mkNode ''b'' (Some ''a'') Subchapter False])) = [''r'', ''a'']
   \<and> mkNode ''a'' (Some ''r'') Chapter True \<in> set (the (visibleNodes 5
        [mkNode ''r'' None Root False, mkNode ''a'' (Some ''r'') Chapter True,
         mkNode ''b'' (Some ''a'') Subchapter False]))
   \<and> computeSmartLayout 3
        [mkNode ''r'' None Root False, mkNode ''a'' (Some ''r'') Chapter True,
         mkNode ''b'' (Some ''a'') Subchapter False]
       = Some [(mkNode ''r'' None Root False)\<lparr>height := Some 180\<rparr>,
               (mkNode ''a'' (Some ''r'') Chapter True)
                 \<lparr>position := \<lparr>pos_x = 80, pos_y = 220\<rparr>, height := Some 120\<rparr>,
               mkNode ''b'' (Some ''a'') Subchapter False]"
proof -
  let ?r = "mkNode ''r'' None Root False" and ?a = "mkNode ''a'' (Some ''r'') Chapter True"
  let ?ns = "[?r, ?a, mkNode ''b'' (Some ''a'') Subchapter False]"
  have 1: "distinct (map node_id ?ns)"
    by code_simp
  have 2: "truthyBool (collapsed ?a)"
    by code_simp
  have 3: "isRoot ?r"
    by code_simp
  have 4: "\<not> truthyBool (collapsed ?r)"
    by code_simp
  have 5: "parentId ?a = Some (node_id ?r)"
    by code_simp
  have "reach ?ns (set (filter isRoot ?ns)) ?r"
    using 3 by (intro reach.start) simp
  then have "reach ?ns (set (filter isRoot ?ns)) ?a"
    using 4 _ 5 by (rule reach.step) simp
  then have 6: "underOpenAncestors ?ns ?a"
    by (simp add: underOpenAncestors_def)
  have "visibleNodes 5 ?ns \<noteq> None"
    by code_simp
  then obtain vis where 7: "visibleNodes 5 ?ns = Some vis"
    by blast
  have 8: "computeSmartLayout 3 ?ns
       = Some [?r\<lparr>height := Some 180\<rparr>,
               ?a\<lparr>position := \<lparr>pos_x = 80, pos_y = 220\<rparr>, height := Some 120\<rparr>,
               mkNode ''b'' (Some ''a'') Subchapter False]"
    by code_simp
  have 9: "map node_id (the (visibleNodes 5 ?ns)) = [''r'', ''a'']"
    by code_simp
  have "?a \<in> set vis"
    using C10_collapsed_node_itself [OF 1 6 7 8] by blast
  then have 10: "?a \<in> set (the (visibleNodes 5 ?ns))"
    unfolding 7 option.sel .
  show ?thesis
    using 1 2 3 4 5 9 10 8 by blast
qed

section \<open>Levelled node sets: the engine and the resolver return\<close>


text \<open>
  The layout engine returns when the nodes carry a rank that grows from every node
  to its children: the recursion is no deeper than the ranks span.
\<close>

lemma layoutNode_ranked:
  assumes rk: "\<And>c p. c \<in> set ns \<Longrightarrow> p \<in> set ns \<Longrightarrow> parentId c = Some (node_id p) \<Longrightarrow> rank p < rank c"
    and hi: "\<And>u. u \<in> set ns \<Longrightarrow> rank u \<le> (hi::int)"
  shows "u \<in> set ns \<Longrightarrow> nat (hi - rank u) < d \<Longrightarrow>
     layoutNode d ns (buildChildrenMap ns) (node_id u) x y st \<noteq> None"
proof (induction d arbitrary: u x y st)
  case 0
  then show ?case by simp
next
  case (Suc d)
  let ?cm = "buildChildrenMap ns" and ?i = "node_id u"
  obtain n where n: "find (\<lambda>n. node_id n = ?i) ns = Some n"
    using find_member [OF Suc.prems(1)] by auto
  show ?case
  proof (cases "truthyBool (collapsed n) \<or> childrenOf ?cm ?i = []")
    case True
    then show ?thesis
      using layoutNode_leaf [OF n True] by simp
  next
    case False
    have "layoutChildren (layoutNode d ns ?cm) (childrenOf ?cm ?i) (x + INDENT_X)
         (y + getNodeHeight n + GAP_Y) (getNodeHeight n + GAP_Y)
         ((fst st)(?i \<mapsto> \<lparr>pos_x = x, pos_y = y\<rparr>), (snd st)(?i \<mapsto> getNodeHeight n)) \<noteq> None"
    proof (rule layoutChildren_returns)
      fix c :: NodeData and cx cy s
      assume "c \<in> set (childrenOf ?cm ?i)"
      then have cin: "c \<in> set ns" and par: "parentId c = Some ?i"
        by (simp_all add: childrenOf_build)
      have "rank u < rank c"
        by (rule rk [OF cin Suc.prems(1) par])
      moreover have "rank c \<le> hi" by (rule hi [OF cin])
      ultimately have "nat (hi - rank c) < d"
        using Suc.prems(2) by linarith
      then show "layoutNode d ns ?cm (node_id c) cx cy s \<noteq> None"
        by (rule Suc.IH [OF cin])
    qed
    then show ?thesis
      using layoutNode_inner [OF n False] by simp
  qed
qed

lemma computeSmartLayout_ranked:
  assumes rk: "\<And>c p. c \<in> set ns \<Longrightarrow> p \<in> set ns \<Longrightarrow> parentId c = Some (node_id p) \<Longrightarrow> rank p < rank c"
    and hi: "\<And>u. u \<in> set ns \<Longrightarrow> rank u \<le> (hi::int)"
    and lo: "\<And>u. u \<in> set ns \<Longrightarrow> lo \<le> rank u"
    and d: "nat (hi - lo) < d"
  shows "computeSmartLayout d ns \<noteq> None"
  unfolding computeSmartLayout_returns_iff layoutMaps_returns_iff
proof
  fix r assume "r \<in> set (filter isRoot ns)"
  then have rin: "r \<in> set ns" by simp
  have "nat (hi - rank r) < d"
    using lo [OF rin] d by linarith
  then show "layoutNode d ns (buildChildrenMap ns) (node_id r) 0 0 emptyMaps \<noteq> None"
    using layoutNode_ranked [where rank = rank and hi = hi and d = d, OF rk hi rin] by blast
qed

lemma computeSmartLayout_levelled:
  assumes "levelled ns" and "levelSpan ns < d"
  shows "computeSmartLayout d ns \<noteq> None"
proof (cases "ns = []")
  case True
  then show ?thesis
    by (simp add: computeSmartLayout_def layoutMaps_def)
next
  case False
  show ?thesis
  proof (rule computeSmartLayout_ranked [where rank = level])
    show "c \<in> set ns \<Longrightarrow> p \<in> set ns \<Longrightarrow> parentId c = Some (node_id p) \<Longrightarrow> level p < level c" for c p
      using assms(1) unfolding levelled_def by blast
    show "u \<in> set ns \<Longrightarrow> level u \<le> Max (set (map level ns))" for u by simp
    show "u \<in> set ns \<Longrightarrow> Min (set (map level ns)) \<le> level u" for u by simp
    show "nat (Max (set (map level ns)) - Min (set (map level ns))) < d"
      using assms(2) False by (simp add: levelSpan_def)
  qed
qed

text \<open>
  The resolver's loop ends for the same reason: weigh a queued node by
  \<open>(n + 1) ^ (hi - rank)\<close>, \<open>n\<close> the number of nodes; an iteration takes a node off
  the queue and puts at most \<open>n\<close> children on it that weigh less in all.
\<close>

lemma sum_list_bounded:
  fixes f :: "'a \<Rightarrow> nat"
  assumes "\<And>x. x \<in> set xs \<Longrightarrow> f x \<le> B"
  shows "sum_list (map f xs) \<le> length xs * B"
  using assms
proof (induction xs)
  case Nil
  then show ?case by simp
next
  case (Cons a xs)
  have "f a \<le> B" by (rule Cons.prems) simp
  moreover have "sum_list (map f xs) \<le> length xs * B"
    by (rule Cons.IH) (rule Cons.prems, simp)
  ultimately show ?case by simp
qed

lemma children_weight:
  assumes rk: "\<And>c p. c \<in> set ns \<Longrightarrow> p \<in> set ns \<Longrightarrow> parentId c = Some (node_id p) \<Longrightarrow> rank p < rank c"
    and hi: "\<And>u. u \<in> set ns \<Longrightarrow> rank u \<le> (hi::int)"
    and cin: "c \<in> set ns"
  shows "(\<Sum>u\<leftarrow>filter (\<lambda>n. parentId n = Some (node_id c)) ns. (length ns + 1) ^ nat (hi - rank u))
     < (length ns + 1) ^ nat (hi - rank c)"
proof (cases "filter (\<lambda>n. parentId n = Some (node_id c)) ns = []")
  case True
  then show ?thesis by simp
next
  case False
  let ?ch = "filter (\<lambda>n. parentId n = Some (node_id c)) ns"
  let ?N = "length ns + 1"
  have below: "rank c < rank u \<and> rank u \<le> hi" if "u \<in> set ?ch" for u
  proof -
    have "u \<in> set ns" "parentId u = Some (node_id c)" using that by simp_all
    then show ?thesis using rk [OF _ cin] hi by blast
  qed
  obtain u0 where "u0 \<in> set ?ch"
    using False by (cases ?ch) auto
  then have "rank c < rank u0 \<and> rank u0 \<le> hi" by (rule below)
  then obtain m where m: "nat (hi - rank c) = Suc m"
    by (cases "nat (hi - rank c)") auto
  have each: "?N ^ nat (hi - rank u) \<le> ?N ^ m" if "u \<in> set ?ch" for u
  proof -
    have "nat (hi - rank u) \<le> m"
      using below [OF that] m by linarith
    then show ?thesis
      by (intro power_increasing) simp_all
  qed
  have "(\<Sum>u\<leftarrow>?ch. ?N ^ nat (hi - rank u)) \<le> length ?ch * ?N ^ m"
    by (rule sum_list_bounded) (rule each)
  also have "\<dots> \<le> length ns * ?N ^ m"
    by (intro mult_right_mono) simp_all
  also have "\<dots> < ?N * ?N ^ m"
    by simp
  finally show ?thesis
    unfolding m by simp
qed

lemma visitQueue_ranked:
  assumes rk: "\<And>c p. c \<in> set ns \<Longrightarrow> p \<in> set ns \<Longrightarrow> parentId c = Some (node_id p) \<Longrightarrow> rank p < rank c"
    and hi: "\<And>u. u \<in> set ns \<Longrightarrow> rank u \<le> (hi::int)"
  shows "set q \<subseteq> set ns \<Longrightarrow> (\<Sum>u\<leftarrow>q. (length ns + 1) ^ nat (hi - rank u)) \<le> k \<Longrightarrow>
     visitQueue k ns q V \<noteq> None"
proof (induction k arbitrary: q V)
  case 0
  show ?case
  proof (cases q)
    case Nil
    then show ?thesis by simp
  next
    case (Cons c q')
    have "0 < (length ns + 1) ^ nat (hi - rank c)" by simp
    then show ?thesis using 0(2) unfolding Cons by simp
  qed
next
  case (Suc k)
  show ?case
  proof (cases q)
    case Nil
    then show ?thesis by simp
  next
    case (Cons c q')
    let ?W = "\<lambda>u. (length ns + 1) ^ nat (hi - rank u)"
    let ?ch = "filter (\<lambda>n. parentId n = Some (node_id c)) ns"
    have cin: "c \<in> set ns" and q': "set q' \<subseteq> set ns"
      using Suc.prems(1) unfolding Cons by simp_all
    have total: "?W c + sum_list (map ?W q') \<le> Suc k"
      using Suc.prems(2) unfolding Cons by simp
    have pos: "0 < ?W c" by simp
    have 1: "visitQueue k ns q' V' \<noteq> None" for V'
    proof (rule Suc.IH [OF q'])
      show "sum_list (map ?W q') \<le> k" using total pos by linarith
    qed
    have 2: "visitQueue k ns (q' @ ?ch) V' \<noteq> None" for V'
    proof (rule Suc.IH)
      show "set (q' @ ?ch) \<subseteq> set ns" using q' by auto
      have "sum_list (map ?W ?ch) < ?W c"
        by (rule children_weight [where rank = rank, OF rk hi cin])
      then show "sum_list (map ?W (q' @ ?ch)) \<le> k"
        using total by simp
    qed
    show ?thesis
      unfolding Cons using 1 2 by simp
  qed
qed

lemma visitQueue_mono:
  "k \<le> k' \<Longrightarrow> visitQueue k ns q V = Some r \<Longrightarrow> visitQueue k' ns q V = Some r"
  by (induction k' rule: nat_induct_at_least) (auto intro: visitQueue_Suc)

lemma visibleNodes_ranked:
  assumes rk: "\<And>c p. c \<in> set ns \<Longrightarrow> p \<in> set ns \<Longrightarrow> parentId c = Some (node_id p) \<Longrightarrow> rank p < rank c"
    and hi: "\<And>u. u \<in> set ns \<Longrightarrow> rank u \<le> (hi::int)"
    and lo: "\<And>u. u \<in> set ns \<Longrightarrow> lo \<le> rank u"
    and k: "queueBound (length ns) (nat (hi - lo)) \<le> k"
  shows "visibleNodes k ns \<noteq> None"
proof -
  let ?N = "length ns + 1"
  have each: "?N ^ nat (hi - rank u) \<le> ?N ^ nat (hi - lo)" if "u \<in> set (filter isRoot ns)" for u
  proof -
    have "lo \<le> rank u" using that lo by simp
    then have "nat (hi - rank u) \<le> nat (hi - lo)" by linarith
    then show ?thesis by (intro power_increasing) simp_all
  qed
  have "(\<Sum>u\<leftarrow>filter isRoot ns. ?N ^ nat (hi - rank u))
      \<le> length (filter isRoot ns) * ?N ^ nat (hi - lo)"
    by (rule sum_list_bounded) (rule each)
  also have "\<dots> \<le> length ns * ?N ^ nat (hi - lo)"
    by (intro mult_right_mono) simp_all
  finally have "(\<Sum>u\<leftarrow>filter isRoot ns. ?N ^ nat (hi - rank u)) \<le> k"
    using k unfolding queueBound_def by linarith
  then have "visitQueue k ns (filter isRoot ns) (set (map node_id (filter isRoot ns))) \<noteq> None"
    by (intro visitQueue_ranked [where rank = rank and hi = hi, OF rk hi]) simp_all
  then show ?thesis
    by (auto simp: visibleNodes_def visibleSetOf_def)
qed

section \<open>Cycles of expanded nodes, and a new child on a levelled store\<close>

text \<open>On a cycle of expanded nodes the engine does not return, whatever the depth.\<close>

lemma layoutChildren_stuck:
  assumes "c \<in> set cs" and "\<And>x y s. rec (node_id c) x y s = None"
  shows "layoutChildren rec cs cx cy t st = None"
  using assms(1)
proof (induction cs arbitrary: cy t st)
  case Nil
  then show ?case by simp
next
  case (Cons a cs)
  show ?case
  proof (cases "rec (node_id a) cx cy st")
    case None
    then show ?thesis by simp
  next
    case (Some r)
    have "rec (node_id c) cx cy st = None" by (rule assms(2))
    then have "a \<noteq> c" using Some by auto
    then have "c \<in> set cs" using Cons.prems by simp
    then show ?thesis
      using Some Cons.IH by (simp split: prod.splits)
  qed
qed

lemma layoutNode_cycle:
  assumes "openCycle ns ids"
  shows "i \<in> set ids \<Longrightarrow> layoutNode d ns (buildChildrenMap ns) i x y st = None"
proof (induction d arbitrary: i x y st)
  case 0
  then show ?case by simp
next
  case (Suc d)
  let ?cm = "buildChildrenMap ns"
  obtain n c where n: "find (\<lambda>u. node_id u = i) ns = Some n" "\<not> truthyBool (collapsed n)"
    and c: "c \<in> set (childrenOf ?cm i)" "node_id c \<in> set ids"
    using assms Suc.prems unfolding openCycle_def by (fastforce split: option.splits)
  have inner: "\<not> (truthyBool (collapsed n) \<or> childrenOf ?cm i = [])"
    using n(2) c(1) by auto
  have "layoutChildren (layoutNode d ns ?cm) (childrenOf ?cm i) (x + INDENT_X)
         (y + getNodeHeight n + GAP_Y) (getNodeHeight n + GAP_Y)
         ((fst st)(i \<mapsto> \<lparr>pos_x = x, pos_y = y\<rparr>), (snd st)(i \<mapsto> getNodeHeight n)) = None"
    using c(1) by (rule layoutChildren_stuck) (rule Suc.IH [OF c(2)])
  then show ?case
    using layoutNode_inner [OF n(1) inner] by simp
qed

lemma computeSmartLayout_cycle:
  assumes "openCycle ns ids" and "r \<in> set ns" and "isRoot r" and "node_id r \<in> set ids"
  shows "computeSmartLayout d ns = None"
proof (rule ccontr)
  assume "computeSmartLayout d ns \<noteq> None"
  then have "layoutNode d ns (buildChildrenMap ns) (node_id r) 0 0 emptyMaps \<noteq> None"
    unfolding computeSmartLayout_returns_iff layoutMaps_returns_iff using assms(2,3) by simp
  then show False
    using layoutNode_cycle [OF assms(1,4)] by simp
qed

lemma openCycle_skeleton:
  assumes "map skeleton ns' = map skeleton ns" and "computeSmartLayout d ns = None"
  shows "computeSmartLayout d ns' = None"
proof (rule ccontr)
  assume "computeSmartLayout d ns' \<noteq> None"
  then have "layoutMaps d ns' \<noteq> None"
    unfolding computeSmartLayout_returns_iff .
  then have "layoutMaps d ns \<noteq> None"
    by (rule layoutMaps_returns_skeleton [OF assms(1) [symmetric]])
  then show False
    using assms(2) unfolding computeSmartLayout_returns_iff [symmetric] by simp
qed

text \<open>
  Add-child does not return when its last layout pass runs on such a cycle: the
  pass on the store with the new node, or, below a collapsed parent, the pass after
  the parent has been un-collapsed.
\<close>

lemma handleAddChild_cycle:
  assumes P: "find (\<lambda>n. node_id n = pid) nodes = Some parent"
    and T: "T = (if truthyBool (collapsed parent)
                 then map (toggleCollapsed pid) (nodes @ [newChildNode newId pid parent])
                 else nodes @ [newChildNode newId pid parent])"
    and cycle: "openCycle T ids" and root: "\<exists>r\<in>set T. isRoot r \<and> node_id r \<in> set ids"
  shows "handleAddChild d newId pid nodes = None"
proof -
  obtain r where "r \<in> set T" "isRoot r" "node_id r \<in> set ids"
    using root by blast
  note cyc = cycle this
  show ?thesis
  proof (cases "truthyBool (collapsed parent)")
  case False
  then have "computeSmartLayout d (nodes @ [newChildNode newId pid parent]) = None"
    using computeSmartLayout_cycle [OF cyc, of d] T by simp
  then show ?thesis
    using P by (simp add: handleAddChild_def)
next
  case True
  let ?X = "nodes @ [newChildNode newId pid parent]"
  have stuck: "computeSmartLayout d (map (toggleCollapsed pid) ?X) = None"
    using computeSmartLayout_cycle [OF cyc, of d] T True by simp
  show ?thesis
  proof (cases "computeSmartLayout d ?X")
    case None
    then show ?thesis using P by (simp add: handleAddChild_def)
  next
    case (Some nodes1)
    have "map skeleton nodes1 = map skeleton ?X"
      by (rule computeSmartLayout_skeleton [OF Some])
    then have "map skeleton (map (toggleCollapsed pid) nodes1)
        = map skeleton (map (toggleCollapsed pid) ?X)"
      by (rule map_skeleton_toggle)
    then have "computeSmartLayout d (map (toggleCollapsed pid) nodes1) = None"
      using stuck by (rule openCycle_skeleton)
    then show ?thesis
      using P Some True by (simp add: handleAddChild_def handleToggleCollapse_def)
  qed
  qed
qed

text \<open>
  Add-child returns on a levelled node set when the new id is fresh: the new node
  is ranked above all others, the old ones by their levels.
\<close>

lemma add_child_ranked:
  assumes lev: "levelled nodes"
    and P: "find (\<lambda>n. node_id n = pid) nodes = Some parent"
    and fresh: "newId \<notin> node_id ` set nodes" "Some newId \<notin> parentId ` set nodes"
    and f: "\<And>u. node_id (f u) = node_id u" "\<And>u. parentId (f u) = parentId u"
      "\<And>u. level (f u) = level u"
    and ns: "ns = map f (nodes @ [newChildNode newId pid parent])"
    and rank: "rank = (\<lambda>u::NodeData. if node_id u = newId then Max (set (map level nodes)) + 1 else level u)"
  shows "\<And>c p. c \<in> set ns \<Longrightarrow> p \<in> set ns \<Longrightarrow> parentId c = Some (node_id p) \<Longrightarrow> rank p < rank c"
    and "\<And>u. u \<in> set ns \<Longrightarrow> rank u \<le> Max (set (map level nodes)) + 1"
    and "\<And>u. u \<in> set ns \<Longrightarrow> Min (set (map level nodes)) \<le> rank u"
    and "nat (Max (set (map level nodes)) + 1 - Min (set (map level nodes))) = levelSpan nodes + 1"
    and "length ns = length nodes + 1"
proof -
  let ?new = "newChildNode newId pid parent"
  let ?hi = "Max (set (map level nodes))" and ?lo = "Min (set (map level nodes))"
  have pin: "parent \<in> set nodes" "node_id parent = pid"
    using find_in_set [OF P] by simp_all
  have ne: "nodes \<noteq> []" using pin by auto
  have new: "node_id ?new = newId" "parentId ?new = Some pid"
    by (simp_all add: newChildNode_def)
  have old: "node_id u \<noteq> newId" "rank u = level u" "level u \<le> ?hi" "?lo \<le> level u"
    if "u \<in> set nodes" for u
    using that fresh(1) by (auto simp: rank)
  have lohi: "?lo \<le> ?hi"
    using old(3,4) [OF pin(1)] by linarith
  have rnew: "rank (f ?new) = ?hi + 1"
    by (simp add: rank f new)
  have rold: "rank (f u) = level u" if "u \<in> set nodes" for u
    using old(1) [OF that] by (simp add: rank f)
  have split: "u \<in> set ns \<Longrightarrow> (\<exists>v\<in>set nodes. u = f v) \<or> u = f ?new" for u
    unfolding ns by auto
  show "rank p < rank c" if "c \<in> set ns" "p \<in> set ns" "parentId c = Some (node_id p)" for c p
  proof -
    from split [OF that(2)] show ?thesis
    proof
      assume "\<exists>v\<in>set nodes. p = f v"
      then obtain p0 where p0: "p0 \<in> set nodes" "p = f p0" by auto
      from split [OF that(1)] show ?thesis
      proof
        assume "\<exists>v\<in>set nodes. c = f v"
        then obtain c0 where c0: "c0 \<in> set nodes" "c = f c0" by auto
        have "parentId c0 = Some (node_id p0)"
          using that(3) unfolding c0(2) p0(2) by (simp add: f)
        then have "level p0 < level c0"
          using lev c0(1) p0(1) unfolding levelled_def by blast
        then show ?thesis
          unfolding c0(2) p0(2) using rold [OF c0(1)] rold [OF p0(1)] by simp
      next
        assume "c = f ?new"
        then show ?thesis
          unfolding p0(2) using rnew rold [OF p0(1)] old(3) [OF p0(1)] by simp
      qed
    next
      assume p: "p = f ?new"
      from split [OF that(1)] show ?thesis
      proof
        assume "\<exists>v\<in>set nodes. c = f v"
        then obtain c0 where c0: "c0 \<in> set nodes" "c = f c0" by auto
        have "parentId c0 = Some newId"
          using that(3) unfolding c0(2) p by (simp add: f new)
        then have "Some newId \<in> parentId ` set nodes"
          using c0(1) by (metis imageI)
        then show ?thesis using fresh(2) by simp
      next
        assume "c = f ?new"
        then have "pid = newId"
          using that(3) unfolding p by (simp add: f new)
        then show ?thesis using old(1) [OF pin(1)] pin(2) by simp
      qed
    qed
  qed
  show "rank u \<le> ?hi + 1" if "u \<in> set ns" for u
    using split [OF that]
  proof
    assume "\<exists>v\<in>set nodes. u = f v"
    then obtain v where v: "v \<in> set nodes" "u = f v" by auto
    show ?thesis
      unfolding v(2) using rold [OF v(1)] old(3) [OF v(1)] by linarith
  next
    assume "u = f ?new"
    then show ?thesis using rnew by simp
  qed
  show "?lo \<le> rank u" if "u \<in> set ns" for u
    using split [OF that]
  proof
    assume "\<exists>v\<in>set nodes. u = f v"
    then obtain v where v: "v \<in> set nodes" "u = f v" by auto
    show ?thesis
      unfolding v(2) using rold [OF v(1)] old(4) [OF v(1)] by linarith
  next
    assume "u = f ?new"
    then show ?thesis using rnew lohi by simp
  qed
  have "levelSpan nodes = nat (?hi - ?lo)"
    using ne by (simp only: levelSpan_def if_False)
  then show "nat (?hi + 1 - ?lo) = levelSpan nodes + 1"
    using lohi by linarith
  show "length ns = length nodes + 1"
    unfolding ns by simp
qed

lemma add_child_layout_returns:
  assumes lev: "levelled nodes"
    and P: "find (\<lambda>n. node_id n = pid) nodes = Some parent"
    and fresh: "newId \<notin> node_id ` set nodes" "Some newId \<notin> parentId ` set nodes"
    and f: "\<And>u. node_id (f u) = node_id u" "\<And>u. parentId (f u) = parentId u"
      "\<And>u. level (f u) = level u"
    and d: "levelSpan nodes + 1 < d"
  shows "computeSmartLayout d (map f (nodes @ [newChildNode newId pid parent])) \<noteq> None"
proof -
  define ns where "ns = map f (nodes @ [newChildNode newId pid parent])"
  define rank where
    "rank = (\<lambda>u::NodeData. if node_id u = newId then Max (set (map level nodes)) + 1 else level u)"
  note r = add_child_ranked [OF lev P fresh f ns_def rank_def]
  have "computeSmartLayout d ns \<noteq> None"
    by (rule computeSmartLayout_ranked [where rank = rank, OF r(1,2,3)]) (simp_all only: r(4) d)
  then show ?thesis
    unfolding ns_def .
qed

lemma handleAddChild_returns:
  assumes lev: "levelled nodes"
    and P: "find (\<lambda>n. node_id n = pid) nodes = Some parent"
    and fresh: "newId \<notin> node_id ` set nodes" "Some newId \<notin> parentId ` set nodes"
    and d: "levelSpan nodes + 1 < d"
  shows "handleAddChild d newId pid nodes \<noteq> None"
proof -
  let ?X = "nodes @ [newChildNode newId pid parent]"
  have "computeSmartLayout d (map (\<lambda>u. u) ?X) \<noteq> None"
    by (rule add_child_layout_returns [OF lev P fresh _ _ _ d]) simp_all
  then obtain nodes1 where 1: "computeSmartLayout d ?X = Some nodes1"
    by auto
  then obtain st where n1: "nodes1 = map (applyLayout st) ?X"
    by (rule computeSmartLayout_Some)
  have "computeSmartLayout d (map (\<lambda>u. toggleCollapsed pid (applyLayout st u)) ?X) \<noteq> None"
    by (rule add_child_layout_returns [OF lev P fresh _ _ _ d]) simp_all
  then have "handleToggleCollapse d pid nodes1 \<noteq> None"
    unfolding handleToggleCollapse_def n1 by (simp add: comp_def)
  then show ?thesis
    using P 1 by (simp add: handleAddChild_def)
qed

section \<open>The layout engine returns a frame of its input\<close>

text \<open>
  C7, as stated, fails on a cycle of expanded nodes below a root-typed node: the
  engine returns no node set for it, at whatever depth its recursion is cut.
\<close>

theorem C7_cycle_counterexample:
  "isRoot (mkNode ''r'' (Some ''a'') Root False)
   \<and> computeSmartLayout 1000
         [mkNode ''r'' (Some ''a'') Root False, mkNode ''a'' (Some ''r'') Chapter False]
       = None
   \<and> (\<forall>d. computeSmartLayout d
          [mkNode ''r'' (Some ''a'') Root False, mkNode ''a'' (Some ''r'') Chapter False]
        = None)"
proof -
  let ?ns = "[mkNode ''r'' (Some ''a'') Root False, mkNode ''a'' (Some ''r'') Chapter False]"
  have 1: "isRoot (mkNode ''r'' (Some ''a'') Root False)"
    by code_simp
  have 2: "openCycle ?ns [''r'', ''a'']"
    by code_simp
  have 3: "node_id (mkNode ''r'' (Some ''a'') Root False) \<in> set [''r'', ''a'']"
    by code_simp
  have "computeSmartLayout d ?ns = None" for d
    by (rule computeSmartLayout_cycle [OF 2 _ 1 3]) simp
  then show ?thesis
    using 1 by blast
qed

text \<open>
  C7, amended: whenever a layout pass returns, it gives back the same nodes in the
  same order, each differing from its original in \<open>position\<close> and \<open>height\<close> at most,
  and a node whose id the traversal never wrote into \<open>positionMap\<close> is returned as
  it was. The pass returns on every node set in which the level of each node is
  greater than its parent's, once the call depth exceeds the span of the levels.
\<close>

theorem C7_layout_frame:
  "(\<forall>nodes'. computeSmartLayout d nodes = Some nodes' \<longrightarrow>
       length nodes' = length nodes
     \<and> (\<forall>k<length nodes.
           nodes' ! k = (nodes ! k)\<lparr>position := position (nodes' ! k), height := height (nodes' ! k)\<rparr>)
     \<and> (\<exists>st. layoutMaps d nodes = Some st
           \<and> (\<forall>k<length nodes. node_id (nodes ! k) \<notin> dom (fst st) \<longrightarrow> nodes' ! k = nodes ! k)))
   \<and> (levelled nodes \<and> levelSpan nodes < d \<longrightarrow> (\<exists>nodes'. computeSmartLayout d nodes = Some nodes'))"
proof -
  have frame: "length nodes' = length nodes
     \<and> (\<forall>k<length nodes.
           nodes' ! k = (nodes ! k)\<lparr>position := position (nodes' ! k), height := height (nodes' ! k)\<rparr>)
     \<and> (\<exists>st. layoutMaps d nodes = Some st
           \<and> (\<forall>k<length nodes. node_id (nodes ! k) \<notin> dom (fst st) \<longrightarrow> nodes' ! k = nodes ! k))"
    if "computeSmartLayout d nodes = Some nodes'" for nodes'
  proof -
    from that obtain st where st: "layoutMaps d nodes = Some st"
      and n: "nodes' = map (applyLayout st) nodes"
      by (rule computeSmartLayout_Some)
    show ?thesis
      using st n applyLayout_frame [of st] applyLayout_unvisited [of _ st] by simp
  qed
  have returns: "\<exists>nodes'. computeSmartLayout d nodes = Some nodes'"
    if "levelled nodes \<and> levelSpan nodes < d"
  proof -
    have "computeSmartLayout d nodes \<noteq> None"
      using that by (intro computeSmartLayout_levelled) simp_all
    then show ?thesis by auto
  qed
  show ?thesis
    using frame returns by blast
qed

theorem C7_layout_frame_witness:
  "levelled (exLevels @ [mkNode ''o'' (Some ''gone'') Chapter False])
   \<and> levelSpan (exLevels @ [mkNode ''o'' (Some ''gone'') Chapter False]) < 3
   \<and> computeSmartLayout 3 (exLevels @ [mkNode ''o'' (Some ''gone'') Chapter False]) \<noteq> None
   \<and> map position (the (computeSmartLayout 3 (exLevels @ [mkNode ''o'' (Some ''gone'') Chapter False])))
       = [\<lparr>pos_x = 0, pos_y = 0\<rparr>, \<lparr>pos_x = 80, pos_y = 220\<rparr>, \<lparr>pos_x = 160, pos_y = 380\<rparr>,
          \<lparr>pos_x = 0, pos_y = 0\<rparr>]
   \<and> map height (the (computeSmartLayout 3 (exLevels @ [mkNode ''o'' (Some ''gone'') Chapter False])))
       = [Some 180, Some 120, Some 120, None]
   \<and> length (the (computeSmartLayout 3 (exLevels @ [mkNode ''o'' (Some ''gone'') Chapter False])))
       = length (exLevels @ [mkNode ''o'' (Some ''gone'') Chapter False])"
proof -
  let ?ns = "exLevels @ [mkNode ''o'' (Some ''gone'') Chapter False]"
  have 1: "levelled ?ns"
    by code_simp
  have 2: "levelSpan ?ns < 3"
    by code_simp
  have 3: "computeSmartLayout 3 ?ns \<noteq> None"
    using C7_layout_frame [of 3 ?ns] 1 2 by blast
  then obtain nodes' where 4: "computeSmartLayout 3 ?ns = Some nodes'"
    by blast
  have 5: "length nodes' = length ?ns"
    using C7_layout_frame [of 3 ?ns] 4 by blast
  have 6: "map position (the (computeSmartLayout 3 ?ns))
       = [\<lparr>pos_x = 0, pos_y = 0\<rparr>, \<lparr>pos_x = 80, pos_y = 220\<rparr>, \<lparr>pos_x = 160, pos_y = 380\<rparr>,
          \<lparr>pos_x = 0, pos_y = 0\<rparr>]"
    by code_simp
  have 7: "map height (the (computeSmartLayout 3 ?ns)) = [Some 180, Some 120, Some 120, None]"
    by code_simp
  have 8: "length (the (computeSmartLayout 3 ?ns)) = length ?ns"
    using 5 unfolding 4 option.sel .
  show ?thesis
    using 1 2 3 6 7 8 by blast
qed

section \<open>Adding a child: when the operation returns\<close>

text \<open>
  Three stores on which add-child below the collapsed, visible node \<open>p\<close> never
  returns, because un-collapsing \<open>p\<close> closes a cycle of expanded nodes: a store
  whose parent links already run in a circle through \<open>p\<close>; a new id that is the id
  of \<open>p\<close> itself; and a new id that an ancestor of \<open>p\<close> names as its parent.
\<close>

lemma add_child_on_cycle:
  "handleAddChild d ''c'' ''p''
     [mkNode ''r'' (Some ''x'') Root False, mkNode ''p'' (Some ''r'') Chapter True,
      mkNode ''x'' (Some ''p'') Subchapter False] = None"
proof -
  let ?ns = "[mkNode ''r'' (Some ''x'') Root False, mkNode ''p'' (Some ''r'') Chapter True,
      mkNode ''x'' (Some ''p'') Subchapter False]"
  let ?p = "mkNode ''p'' (Some ''r'') Chapter True"
  let ?T = "if truthyBool (collapsed ?p)
      then map (toggleCollapsed ''p'') (?ns @ [newChildNode ''c'' ''p'' ?p])
      else ?ns @ [newChildNode ''c'' ''p'' ?p]"
  have 1: "find (\<lambda>n. node_id n = ''p'') ?ns = Some ?p"
    by code_simp
  have 2: "openCycle ?T [''r'', ''p'', ''x'']"
    by code_simp
  have 3: "\<exists>r\<in>set ?T. isRoot r \<and> node_id r \<in> set [''r'', ''p'', ''x'']"
    by code_simp
  show ?thesis
    by (rule handleAddChild_cycle [OF 1 refl 2 3])
qed

lemma add_child_taken_id:
  "handleAddChild d ''p'' ''p''
     [mkNode ''r'' None Root False, (mkNode ''p'' (Some ''r'') Chapter True)\<lparr>level := 1\<rparr>] = None"
proof -
  let ?p = "(mkNode ''p'' (Some ''r'') Chapter True)\<lparr>level := 1\<rparr>"
  let ?ns = "[mkNode ''r'' None Root False, ?p]"
  let ?T = "if truthyBool (collapsed ?p)
      then map (toggleCollapsed ''p'') (?ns @ [newChildNode ''p'' ''p'' ?p])
      else ?ns @ [newChildNode ''p'' ''p'' ?p]"
  have 1: "find (\<lambda>n. node_id n = ''p'') ?ns = Some ?p"
    by code_simp
  have 2: "openCycle ?T [''r'', ''p'']"
    by code_simp
  have 3: "\<exists>r\<in>set ?T. isRoot r \<and> node_id r \<in> set [''r'', ''p'']"
    by code_simp
  show ?thesis
    by (rule handleAddChild_cycle [OF 1 refl 2 3])
qed

lemma add_child_named_parent:
  "handleAddChild d ''n'' ''p''
     [mkNode ''z'' (Some ''n'') Root False, (mkNode ''p'' (Some ''z'') Chapter True)\<lparr>level := 1\<rparr>]
     = None"
proof -
  let ?p = "(mkNode ''p'' (Some ''z'') Chapter True)\<lparr>level := 1\<rparr>"
  let ?ns = "[mkNode ''z'' (Some ''n'') Root False, ?p]"
  let ?T = "if truthyBool (collapsed ?p)
      then map (toggleCollapsed ''p'') (?ns @ [newChildNode ''n'' ''p'' ?p])
      else ?ns @ [newChildNode ''n'' ''p'' ?p]"
  have 1: "find (\<lambda>n. node_id n = ''p'') ?ns = Some ?p"
    by code_simp
  have 2: "openCycle ?T [''z'', ''p'', ''n'']"
    by code_simp
  have 3: "\<exists>r\<in>set ?T. isRoot r \<and> node_id r \<in> set [''z'', ''p'', ''n'']"
    by code_simp
  show ?thesis
    by (rule handleAddChild_cycle [OF 1 refl 2 3])
qed




section \<open>Adding a child to a collapsed parent: the new child is visible\<close>

lemma handleAddChild_visible:
  assumes dist: "distinct (map node_id nodes)"
    and P: "find (\<lambda>u. node_id u = pid) nodes = Some parent" "truthyBool (collapsed parent)"
    and vis: "visibleNodes k nodes = Some vis" "parent \<in> set vis"
    and add: "handleAddChild d newId pid nodes = Some nodes'"
    and vis': "visibleNodes k' nodes' = Some vis'"
  shows "(\<exists>p'. find (\<lambda>u. node_id u = pid) nodes' = Some p' \<and> \<not> truthyBool (collapsed p'))
     \<and> node_id (last nodes') = newId \<and> parentId (last nodes') = Some pid
     \<and> last nodes' \<in> set vis'"
proof -
  let ?new = "newChildNode newId pid parent"
  obtain st st2 where n': "nodes' = map (\<lambda>u. applyLayout st2 (toggleCollapsed pid (applyLayout st u)))
       (nodes @ [?new])"
    using handleAddChild_collapsed_shape [OF P add] by blast
  define g where "g = (\<lambda>u. applyLayout st2 (toggleCollapsed pid (applyLayout st u)))"
  have n: "nodes' = map g (nodes @ [?new])"
    using n' by (simp add: g_def)
  have gid [simp]: "node_id (g u) = node_id u" and gpar [simp]: "parentId (g u) = parentId u"
    and groot [simp]: "isRoot (g u) = isRoot u" for u
    by (simp_all add: g_def)
  have gcol: "truthyBool (collapsed (g u)) = truthyBool (collapsed u)" if "node_id u \<noteq> pid" for u
    using that by (simp add: g_def toggle_other)
  have gpc: "\<not> truthyBool (collapsed (g parent))"
    using P(2) find_in_set(2) [OF P(1)] by (simp add: g_def toggle_collapses)
  have pin: "parent \<in> set nodes" "node_id parent = pid"
    using find_in_set [OF P(1)] by simp_all
  \<comment> \<open>the parent is found again, un-collapsed\<close>
  have "find (\<lambda>u. node_id u = pid) nodes' = map_option g (find (\<lambda>u. node_id u = pid) (nodes @ [?new]))"
    unfolding n by (rule find_map_id) simp
  then have f: "find (\<lambda>u. node_id u = pid) nodes' = Some (g parent)"
    using find_append_Some [OF P(1)] by simp
  \<comment> \<open>what was reachable stays reachable\<close>
  have gin: "g u \<in> set nodes'" if "u \<in> set nodes" for u
    using that unfolding n by simp
  have keep: "underOpenAncestors nodes' (g u)" if "underOpenAncestors nodes u" for u
    using that unfolding underOpenAncestors_def
  proof (induction rule: reach.induct)
    case (start u)
    then have "u \<in> set nodes" "isRoot u" by simp_all
    then have "g u \<in> set (filter isRoot nodes')"
      using gin [of u] by simp
    then show ?case by (rule reach.start)
  next
    case (step u c)
    have uin: "u \<in> set nodes"
      using step.hyps(1) by (rule reach_in_set) auto
    have "node_id u \<noteq> pid"
    proof
      assume "node_id u = pid"
      then have "u = parent" using uin pin by (intro distinct_ids_eq [OF dist]) simp_all
      then show False using step.hyps(2) P(2) by simp
    qed
    then have nc: "\<not> truthyBool (collapsed (g u))"
      using step.hyps(2) by (simp add: gcol)
    have cin: "g c \<in> set nodes'" using step.hyps(3) by (rule gin)
    have par: "parentId (g c) = Some (node_id (g u))" using step.hyps(4) by simp
    show ?case by (rule reach.step [OF step.IH nc cin par])
  qed
  \<comment> \<open>the parent was reachable\<close>
  obtain V where V: "visibleSetOf k nodes = Some V" and visV: "vis = filter (\<lambda>u. node_id u \<in> V) nodes"
    using vis(1) by (rule visibleNodes_Some)
  have "pid \<in> V" using vis(2) pin(2) unfolding visV by auto
  then obtain u where u: "underOpenAncestors nodes u" "node_id u = pid"
    unfolding visibleSetOf_reach [OF V] by auto
  have "u = parent"
    using underOpenAncestors_in_set [OF u(1)] pin u(2) by (intro distinct_ids_eq [OF dist]) simp_all
  then have "underOpenAncestors nodes' (g parent)"
    using keep [OF u(1)] by simp
  then have "reach nodes' (set (filter isRoot nodes')) (g ?new)"
    unfolding underOpenAncestors_def using gpc
  proof (rule reach.step)
    show "g ?new \<in> set nodes'" unfolding n by simp
    show "parentId (g ?new) = Some (node_id (g parent))"
      using pin(2) by (simp add: newChildNode_def)
  qed
  then have new: "underOpenAncestors nodes' (g ?new)"
    by (simp add: underOpenAncestors_def)
  obtain V' where V': "visibleSetOf k' nodes' = Some V'"
    and visV': "vis' = filter (\<lambda>u. node_id u \<in> V') nodes'"
    using vis' by (rule visibleNodes_Some)
  have "node_id (g ?new) \<in> V'"
    unfolding visibleSetOf_reach [OF V'] using new by blast
  moreover have l: "last nodes' = g ?new"
    unfolding n by simp
  moreover have "g ?new \<in> set nodes'"
    unfolding n by simp
  ultimately have "last nodes' \<in> set vis'"
    unfolding visV' by simp
  moreover have "node_id (last nodes') = newId" "parentId (last nodes') = Some pid"
    unfolding l by (simp_all add: newChildNode_def)
  ultimately show ?thesis
    using f gpc by blast
qed

text \<open>
  C8, as stated, fails in two ways. When the collapsed parent is itself hidden
  behind a collapsed ancestor, the operation un-collapses the parent only, and the
  new child stays out of the resolver's output. And on the three stores above, where
  the collapsed parent \<open>p\<close> is in the resolver's output, the operation does not
  return: un-collapsing \<open>p\<close> closes a cycle of expanded nodes.
\<close>

theorem C8_hidden_parent_or_no_return_counterexample:
  "find (\<lambda>n. node_id n = ''p'')
       [mkNode ''r'' None Root True, mkNode ''p'' (Some ''r'') Chapter True]
     = Some (mkNode ''p'' (Some ''r'') Chapter True)
   \<and> truthyBool (collapsed (mkNode ''p'' (Some ''r'') Chapter True))
   \<and> map node_id (the (handleAddChild 4 ''c'' ''p''
         [mkNode ''r'' None Root True, mkNode ''p'' (Some ''r'') Chapter True]))
       = [''r'', ''p'', ''c'']
   \<and> map (\<lambda>u. truthyBool (collapsed u)) (the (handleAddChild 4 ''c'' ''p''
         [mkNode ''r'' None Root True, mkNode ''p'' (Some ''r'') Chapter True]))
       = [True, False, False]
   \<and> map node_id (the (visibleNodes 5 (the (handleAddChild 4 ''c'' ''p''
         [mkNode ''r'' None Root True, mkNode ''p'' (Some ''r'') Chapter True]))))
       = [''r'']
   \<and> map node_id (the (visibleNodes 5
         [mkNode ''r'' (Some ''x'') Root False, mkNode ''p'' (Some ''r'') Chapter True,
          mkNode ''x'' (Some ''p'') Subchapter False]))
       = [''r'', ''p'']
   \<and> (\<forall>d. handleAddChild d ''c'' ''p''
          [mkNode ''r'' (Some ''x'') Root False, mkNode ''p'' (Some ''r'') Chapter True,
           mkNode ''x'' (Some ''p'') Subchapter False] = None)
   \<and> map node_id (the (visibleNodes 5
         [mkNode ''r'' None Root False, (mkNode ''p'' (Some ''r'') Chapter True)\<lparr>level := 1\<rparr>]))
       = [''r'', ''p'']
   \<and> (\<forall>d. handleAddChild d ''p'' ''p''
          [mkNode ''r'' None Root False, (mkNode ''p'' (Some ''r'') Chapter True)\<lparr>level := 1\<rparr>]
        = None)
   \<and> map node_id (the (visibleNodes 5
         [mkNode ''z'' (Some ''n'') Root False, (mkNode ''p'' (Some ''z'') Chapter True)\<lparr>level := 1\<rparr>]))
       = [''z'', ''p'']
   \<and> (\<forall>d. handleAddChild d ''n'' ''p''
          [mkNode ''z'' (Some ''n'') Root False, (mkNode ''p'' (Some ''z'') Chapter True)\<lparr>level := 1\<rparr>]
        = None)"
proof -
  let ?ns = "[mkNode ''r'' None Root True, mkNode ''p'' (Some ''r'') Chapter True]"
  let ?after = "[(mkNode ''r'' None Root True)\<lparr>height := Some 180\<rparr>,
      mkNode ''p'' (Some ''r'') Chapter False,
      newChildNode ''c'' ''p'' (mkNode ''p'' (Some ''r'') Chapter True)]"
  have run: "handleAddChild 4 ''c'' ''p'' ?ns = Some ?after"
    by code_simp
  have 1: "find (\<lambda>n. node_id n = ''p'') ?ns = Some (mkNode ''p'' (Some ''r'') Chapter True)"
    by code_simp
  have 2: "truthyBool (collapsed (mkNode ''p'' (Some ''r'') Chapter True))"
    by code_simp
  have 3: "map node_id ?after = [''r'', ''p'', ''c'']"
    by code_simp
  have 4: "map (\<lambda>u. truthyBool (collapsed u)) ?after = [True, False, False]"
    by code_simp
  have 5: "map node_id (the (visibleNodes 5 ?after)) = [''r'']"
    by code_simp
  have 6: "map node_id (the (visibleNodes 5
         [mkNode ''r'' (Some ''x'') Root False, mkNode ''p'' (Some ''r'') Chapter True,
          mkNode ''x'' (Some ''p'') Subchapter False]))
       = [''r'', ''p'']"
    by code_simp
  have 7: "map node_id (the (visibleNodes 5
         [mkNode ''r'' None Root False, (mkNode ''p'' (Some ''r'') Chapter True)\<lparr>level := 1\<rparr>]))
       = [''r'', ''p'']"
    by code_simp
  have 8: "map node_id (the (visibleNodes 5
         [mkNode ''z'' (Some ''n'') Root False, (mkNode ''p'' (Some ''z'') Chapter True)\<lparr>level := 1\<rparr>]))
       = [''z'', ''p'']"
    by code_simp
  show ?thesis
    unfolding run option.sel
    using 1 2 3 4 5 6 7 8 add_child_on_cycle add_child_taken_id add_child_named_parent
    by blast
qed

text \<open>
  C8, amended: on a node set with pairwise distinct ids in which the level of each
  node is greater than its parent's, adding a child, under a new id that is neither
  the id nor the \<open>parentId\<close> of a node, to an existing parent that is collapsed and
  is itself in the resolver's output returns once the call depth exceeds the span
  of the levels by more than one. It leaves the parent un-collapsed, and the
  resolver returns on the new store, given \<open>queueBound\<close> iterations, with the new
  child, the last node of the store, in its output.
\<close>

theorem C8_add_child_visible:
  assumes dist: "distinct (map node_id nodes)"
    and lev: "levelled nodes"
    and P: "find (\<lambda>u. node_id u = pid) nodes = Some parent" "truthyBool (collapsed parent)"
    and vis: "visibleNodes k nodes = Some vis" "parent \<in> set vis"
    and fresh: "newId \<notin> node_id ` set nodes" "Some newId \<notin> parentId ` set nodes"
    and d: "levelSpan nodes + 1 < d"
  shows "\<exists>nodes'. handleAddChild d newId pid nodes = Some nodes'
     \<and> (\<exists>p'. find (\<lambda>u. node_id u = pid) nodes' = Some p' \<and> \<not> truthyBool (collapsed p'))
     \<and> node_id (last nodes') = newId \<and> parentId (last nodes') = Some pid
     \<and> (\<forall>k'\<ge>queueBound (length nodes + 1) (levelSpan nodes + 1).
           \<exists>vis'. visibleNodes k' nodes' = Some vis' \<and> last nodes' \<in> set vis')"
proof -
  let ?new = "newChildNode newId pid parent"
  let ?hi = "Max (set (map level nodes)) + 1" and ?lo = "Min (set (map level nodes))"
  have "handleAddChild d newId pid nodes \<noteq> None"
    by (rule handleAddChild_returns [OF lev P(1) fresh d])
  then obtain nodes' where add: "handleAddChild d newId pid nodes = Some nodes'"
    by auto
  obtain st st2 where n': "nodes' = map (\<lambda>u. applyLayout st2 (toggleCollapsed pid (applyLayout st u)))
       (nodes @ [?new])"
    using handleAddChild_collapsed_shape [OF P add] by blast
  define rank where
    "rank = (\<lambda>u::NodeData. if node_id u = newId then Max (set (map level nodes)) + 1 else level u)"
  have r: "\<And>c p. c \<in> set nodes' \<Longrightarrow> p \<in> set nodes' \<Longrightarrow> parentId c = Some (node_id p) \<Longrightarrow> rank p < rank c"
    "\<And>u. u \<in> set nodes' \<Longrightarrow> rank u \<le> ?hi"
    "\<And>u. u \<in> set nodes' \<Longrightarrow> ?lo \<le> rank u"
    "nat (?hi - ?lo) = levelSpan nodes + 1"
    "length nodes' = length nodes + 1"
    by (rule add_child_ranked [OF lev P(1) fresh _ _ _ n' rank_def]; simp)+
  have seen: "\<exists>vis'. visibleNodes k' nodes' = Some vis' \<and> last nodes' \<in> set vis'"
    if "queueBound (length nodes + 1) (levelSpan nodes + 1) \<le> k'" for k'
  proof -
    have "queueBound (length nodes') (nat (?hi - ?lo)) \<le> k'"
      using that unfolding r(4) r(5) .
    then have "visibleNodes k' nodes' \<noteq> None"
      using visibleNodes_ranked [where rank = rank and ns = nodes' and hi = ?hi and lo = ?lo
          and k = k', OF r(1) r(2) r(3)]
      by blast
    then obtain vis' where vis': "visibleNodes k' nodes' = Some vis'"
      by auto
    have "last nodes' \<in> set vis'"
      using handleAddChild_visible [OF dist P vis add vis'] by blast
    then show ?thesis using vis' by blast
  qed
  have "(\<exists>p'. find (\<lambda>u. node_id u = pid) nodes' = Some p' \<and> \<not> truthyBool (collapsed p'))
     \<and> node_id (last nodes') = newId \<and> parentId (last nodes') = Some pid"
  proof -
    obtain vis0 where "visibleNodes (queueBound (length nodes + 1) (levelSpan nodes + 1)) nodes' = Some vis0"
      using seen [of "queueBound (length nodes + 1) (levelSpan nodes + 1)"] by blast
    then show ?thesis
      using handleAddChild_visible [OF dist P vis add] by blast
  qed
  then show ?thesis
    using add seen by blast
qed

theorem C8_add_child_visible_witness:
  "distinct (map node_id
      [mkNode ''r'' None Root False, (mkNode ''p'' (Some ''r'') Chapter True)\<lparr>level := 1\<rparr>])
   \<and> levelled [mkNode ''r'' None Root False, (mkNode ''p'' (Some ''r'') Chapter True)\<lparr>level := 1\<rparr>]
   \<and> find (\<lambda>u. node_id u = ''p'')
         [mkNode ''r'' None Root False, (mkNode ''p'' (Some ''r'') Chapter True)\<lparr>level := 1\<rparr>]
       = Some ((mkNode ''p'' (Some ''r'') Chapter True)\<lparr>level := 1\<rparr>)
   \<and> truthyBool (collapsed ((mkNode ''p'' (Some ''r'') Chapter True)\<lparr>level := 1\<rparr>))
   \<and> the (visibleNodes 5
         [mkNode ''r'' None Root False, (mkNode ''p'' (Some ''r'') Chapter True)\<lparr>level := 1\<rparr>])
       = [mkNode ''r'' None Root False, (mkNode ''p'' (Some ''r'') Chapter True)\<lparr>level := 1\<rparr>]
   \<and> ''c'' \<notin> node_id `
         set [mkNode ''r'' None Root False, (mkNode ''p'' (Some ''r'') Chapter True)\<lparr>level := 1\<rparr>]
   \<and> Some ''c'' \<notin> parentId `
         set [mkNode ''r'' None Root False, (mkNode ''p'' (Some ''r'') Chapter True)\<lparr>level := 1\<rparr>]
   \<and> levelSpan [mkNode ''r'' None Root False, (mkNode ''p'' (Some ''r'') Chapter True)\<lparr>level := 1\<rparr>]
         + 1 < 4
   \<and> queueBound (length
         [mkNode ''r'' None Root False, (mkNode ''p'' (Some ''r'') Chapter True)\<lparr>level := 1\<rparr>] + 1)
        (levelSpan
         [mkNode ''r'' None Root False, (mkNode ''p'' (Some ''r'') Chapter True)\<lparr>level := 1\<rparr>] + 1)
       = 48
   \<and> map (\<lambda>u. truthyBool (collapsed u)) (the (handleAddChild 4 ''c'' ''p''
         [mkNode ''r'' None Root False, (mkNode ''p'' (Some ''r'') Chapter True)\<lparr>level := 1\<rparr>]))
       = [False, False, False]
   \<and> map node_id (the (visibleNodes 48 (the (handleAddChild 4 ''c'' ''p''
         [mkNode ''r'' None Root False, (mkNode ''p'' (Some ''r'') Chapter True)\<lparr>level := 1\<rparr>]))))
       = [''r'', ''p'', ''c'']
   \<and> last (the (handleAddChild 4 ''c'' ''p''
         [mkNode ''r'' None Root False, (mkNode ''p'' (Some ''r'') Chapter True)\<lparr>level := 1\<rparr>]))
       \<in> set (the (visibleNodes 48 (the (handleAddChild 4 ''c'' ''p''
         [mkNode ''r'' None Root False, (mkNode ''p'' (Some ''r'') Chapter True)\<lparr>level := 1\<rparr>]))))"
proof -
  let ?p = "(mkNode ''p'' (Some ''r'') Chapter True)\<lparr>level := 1\<rparr>"
  let ?ns = "[mkNode ''r'' None Root False, ?p]"
  have 1: "distinct (map node_id ?ns)"
    by code_simp
  have 2: "levelled ?ns"
    by code_simp
  have 3: "find (\<lambda>u. node_id u = ''p'') ?ns = Some ?p"
    by code_simp
  have 4: "truthyBool (collapsed ?p)"
    by code_simp
  have 5: "visibleNodes 5 ?ns = Some ?ns"
    by code_simp
  have 6: "?p \<in> set ?ns"
    by simp
  have 7: "''c'' \<notin> node_id ` set ?ns"
    by code_simp
  have 8: "Some ''c'' \<notin> parentId ` set ?ns"
    by code_simp
  have 9: "levelSpan ?ns + 1 < 4"
    by code_simp
  have 10: "queueBound (length ?ns + 1) (levelSpan ?ns + 1) = 48"
    by code_simp
  obtain nodes' where 11: "handleAddChild 4 ''c'' ''p'' ?ns = Some nodes'"
    and 12: "\<forall>k'\<ge>queueBound (length ?ns + 1) (levelSpan ?ns + 1).
           \<exists>vis'. visibleNodes k' nodes' = Some vis' \<and> last nodes' \<in> set vis'"
    using C8_add_child_visible [OF 1 2 3 4 5 6 7 8 9] by blast
  obtain vis' where 13: "visibleNodes 48 nodes' = Some vis'" and 14: "last nodes' \<in> set vis'"
    using 12 unfolding 10 by blast
  have 15: "map (\<lambda>u. truthyBool (collapsed u)) (the (handleAddChild 4 ''c'' ''p'' ?ns))
       = [False, False, False]"
    by code_simp
  have run: "handleAddChild 4 ''c'' ''p'' ?ns
      = Some [(mkNode ''r'' None Root False)\<lparr>height := Some 180\<rparr>,
          (mkNode ''p'' (Some ''r'') Chapter False)
            \<lparr>position := \<lparr>pos_x = 80, pos_y = 220\<rparr>, level := 1, height := Some 120\<rparr>,
          (newChildNode ''c'' ''p'' ?p)
            \<lparr>position := \<lparr>pos_x = 160, pos_y = 380\<rparr>, height := Some 80\<rparr>]"
    by code_simp
  have 16: "map node_id (the (visibleNodes 48
        [(mkNode ''r'' None Root False)\<lparr>height := Some 180\<rparr>,
          (mkNode ''p'' (Some ''r'') Chapter False)
            \<lparr>position := \<lparr>pos_x = 80, pos_y = 220\<rparr>, level := 1, height := Some 120\<rparr>,
          (newChildNode ''c'' ''p'' ?p)
            \<lparr>position := \<lparr>pos_x = 160, pos_y = 380\<rparr>, height := Some 80\<rparr>]))
       = [''r'', ''p'', ''c'']"
    by code_simp
  have 17: "last (the (handleAddChild 4 ''c'' ''p'' ?ns))
       \<in> set (the (visibleNodes 48 (the (handleAddChild 4 ''c'' ''p'' ?ns))))"
    using 13 14 unfolding 11 option.sel by simp
  have 18: "the (visibleNodes 5 ?ns) = ?ns"
    unfolding 5 option.sel ..
  have 19: "map node_id (the (visibleNodes 48 (the (handleAddChild 4 ''c'' ''p'' ?ns))))
       = [''r'', ''p'', ''c'']"
    unfolding run option.sel by (rule 16)
  show ?thesis
    using 1 2 3 4 18 7 8 9 10 15 19 17 by blast
qed

end
